theory Spec2Isabelle
  imports Complex_Main "HOL-Library.Multiset"
begin

section \<open>Load exit-order optimisation (frontend/src/utils/loadOptimization.ts)\<close>

text \<open>
  The module is a set of pure functions over arrays of jumpers. The embedding keeps the
  run-time representation of the data: \<open>jumpType\<close> and \<open>experienceLevel\<close> are strings
  (the declared literal unions are the predicates \<open>declaredJumpType\<close> and
  \<open>declaredExperienceLevel\<close>) and optional fields are \<open>option\<close> values.
  \<open>exitAltitude\<close> and \<open>fallRate\<close> (feet, miles per hour) range over the integers, on
  which the subtractions of the comparison function are exact. \<open>weight\<close> and the numbers
  the module computes from it are double-precision numbers, values of \<open>jsnum\<close>: the sum
  and the quotients are rounded as the language rounds them.
\<close>

subsection \<open>Numbers\<close>

text \<open>
  A Number is \<open>NaN\<close>, an infinity, or a finite double, kept as the rational number it
  is. The sign of a zero is not kept: no result of the module depends on it.
\<close>

datatype jsnum = NaN | PosInfinity | NegInfinity | Finite rat

definition pow2 :: "int \<Rightarrow> rat" where
  "pow2 e = (if 0 \<le> e then 2 ^ nat e else 1 / 2 ^ nat (- e))"

text \<open>The binary exponent of a positive rational: \<open>pow2 (ilog2 x) \<le> x < pow2 (ilog2 x + 1)\<close>.\<close>

function ilog2 :: "rat \<Rightarrow> int" where
  "ilog2 x =
     (if x \<le> 0 then 0
      else if 2 \<le> x then ilog2 (x / 2) + 1
      else if x < 1 then ilog2 (x * 2) - 1
      else 0)"
  by pat_completeness auto
termination
proof (relation "measure (\<lambda>x. if 1 \<le> x then nat \<lfloor>x\<rfloor> else nat \<lceil>1 / x\<rceil>)")
  show "wf (measure (\<lambda>x::rat. if 1 \<le> x then nat \<lfloor>x\<rfloor> else nat \<lceil>1 / x\<rceil>))" by simp
next
  fix x :: rat
  assume "\<not> x \<le> 0" and x: "2 \<le> x"
  have "\<lfloor>x / 2\<rfloor> \<le> \<lfloor>x - 1\<rfloor>" using x by (intro floor_mono) simp
  also have "\<dots> = \<lfloor>x\<rfloor> - 1" by simp
  finally have "\<lfloor>x / 2\<rfloor> < \<lfloor>x\<rfloor>" by simp
  moreover have "0 < \<lfloor>x\<rfloor>" using x by simp
  ultimately have "nat \<lfloor>x / 2\<rfloor> < nat \<lfloor>x\<rfloor>" by linarith
  then show "(x / 2, x) \<in> measure (\<lambda>x. if 1 \<le> x then nat \<lfloor>x\<rfloor> else nat \<lceil>1 / x\<rceil>)"
    using x by simp
next
  fix x :: rat
  assume p: "\<not> x \<le> 0" and "\<not> 2 \<le> x" and x: "x < 1"
  have inv: "1 < 1 / x" using p x by simp
  then have c: "2 \<le> \<lceil>1 / x\<rceil>" by linarith
  show "(x * 2, x) \<in> measure (\<lambda>x. if 1 \<le> x then nat \<lfloor>x\<rfloor> else nat \<lceil>1 / x\<rceil>)"
  proof (cases "1 \<le> x * 2")
    case True
    have "x * 2 < of_int 2" using x by simp
    then have "\<lfloor>x * 2\<rfloor> < 2" by (simp only: floor_less_iff)
    with c have "nat \<lfloor>x * 2\<rfloor> < nat \<lceil>1 / x\<rceil>" by linarith
    with True x show ?thesis by simp
  next
    case False
    then have "2 < 1 / x" using p by (simp add: field_simps)
    then have "1 / (x * 2) \<le> 1 / x - 1" by (simp add: field_simps)
    then have "\<lceil>1 / (x * 2)\<rceil> \<le> \<lceil>1 / x - 1\<rceil>" by (rule ceiling_mono)
    also have "\<dots> = \<lceil>1 / x\<rceil> - 1" by simp
    finally have "\<lceil>1 / (x * 2)\<rceil> < \<lceil>1 / x\<rceil>" by simp
    with c have "nat \<lceil>1 / (x * 2)\<rceil> < nat \<lceil>1 / x\<rceil>" by linarith
    with False x show ?thesis by simp
  qed
qed

declare ilog2.simps [simp del]

text \<open>Rounding to the nearest integer, a tie to the even one.\<close>

definition round_half_even :: "rat \<Rightarrow> int" where
  "round_half_even y =
     (let f = \<lfloor>y\<rfloor>; r = y - of_int f
      in if r < 1 / 2 then f else if 1 / 2 < r then f + 1 else if even f then f else f + 1)"

text \<open>
  The double nearest to a rational (binary64, round to nearest, ties to even): a
  significand of 53 bits at the exponent of the number, of fewer bits below the smallest
  normal number (the exponent stops at \<open>-1074\<close>), and an infinity from \<open>2\<^sup>1\<^sup>0\<^sup>2\<^sup>4\<close> on.
\<close>

definition round64 :: "rat \<Rightarrow> jsnum" where
  "round64 x =
     (if x = 0 then Finite 0
      else
        let e = max (ilog2 \<bar>x\<bar> - 52) (- 1074);
            m = round_half_even (\<bar>x\<bar> / pow2 e);
            y = of_int m * pow2 e
        in if pow2 1024 \<le> y then (if 0 < x then PosInfinity else NegInfinity)
           else Finite (if 0 < x then y else - y))"

text \<open>An integer as a Number (an array length, a seat count).\<close>

definition js_of_int :: "int \<Rightarrow> jsnum" where
  "js_of_int k = round64 (of_int k)"

definition js_inf :: "bool \<Rightarrow> jsnum" where
  "js_inf positive = (if positive then PosInfinity else NegInfinity)"

text \<open>\<open>a + b\<close>, \<open>a / b\<close> and \<open>a * b\<close> on Numbers: no operation raises, a zero divisor gives
  \<open>NaN\<close> or an infinity.\<close>

fun js_add :: "jsnum \<Rightarrow> jsnum \<Rightarrow> jsnum" where
  "js_add (Finite x) (Finite y) = round64 (x + y)"
| "js_add NaN b = NaN"
| "js_add a NaN = NaN"
| "js_add PosInfinity NegInfinity = NaN"
| "js_add NegInfinity PosInfinity = NaN"
| "js_add (Finite x) b = b"
| "js_add a b = a"

fun js_div :: "jsnum \<Rightarrow> jsnum \<Rightarrow> jsnum" where
  "js_div (Finite x) (Finite y) =
     (if y = 0 then (if x = 0 then NaN else js_inf (0 < x)) else round64 (x / y))"
| "js_div NaN b = NaN"
| "js_div a NaN = NaN"
| "js_div (Finite x) b = Finite 0"
| "js_div a (Finite y) = js_inf ((a = PosInfinity) = (0 \<le> y))"
| "js_div a b = NaN"

fun js_mul :: "jsnum \<Rightarrow> jsnum \<Rightarrow> jsnum" where
  "js_mul (Finite x) (Finite y) = round64 (x * y)"
| "js_mul NaN b = NaN"
| "js_mul a NaN = NaN"
| "js_mul (Finite x) b = (if x = 0 then NaN else js_inf ((b = PosInfinity) = (0 < x)))"
| "js_mul a (Finite y) = (if y = 0 then NaN else js_inf ((a = PosInfinity) = (0 < y)))"
| "js_mul a b = js_inf (a = b)"

text \<open>\<open>x > k\<close> for an integer constant \<open>k\<close>: every comparison with \<open>NaN\<close> is false.\<close>

definition js_gt :: "jsnum \<Rightarrow> int \<Rightarrow> bool" where
  "js_gt x k =
     (case x of NaN \<Rightarrow> False | PosInfinity \<Rightarrow> True | NegInfinity \<Rightarrow> False
      | Finite r \<Rightarrow> of_int k < r)"

text \<open>Number-to-string conversion of an integer, as a template literal performs it:
  the decimal digits, after a minus sign for a negative number (the format of every
  integer of magnitude below \<open>10\<^sup>2\<^sup>1\<close>).\<close>

definition digit_char :: "nat \<Rightarrow> char" where
  "digit_char d = ''0123456789'' ! d"

fun digits :: "nat \<Rightarrow> string" where
  "digits n = (if n < 10 then [digit_char n] else digits (n div 10) @ [digit_char (n mod 10)])"

declare digits.simps [simp del]

definition js_string_of_int :: "int \<Rightarrow> string" where
  "js_string_of_int i = (if i < 0 then CHR ''-'' # digits (nat (- i)) else digits (nat i))"

subsection \<open>Array operations\<close>

text \<open>
  \<open>Array.prototype.sort\<close> with a comparison function is a stable sort. It is modelled
  as the insertion sort that takes the elements from left to right and puts each one in
  front of the first element of the sorted prefix that the comparison function places
  after it (a negative result of \<open>cmp x y\<close>). For a consistent comparison function the
  language fixes the result of the sort, and the model returns it (\<open>sort_js_unique\<close>
  below); the differences of \<open>getJumperPriority\<close> are consistent. The comparison function
  of \<open>calculateExitOrder\<close> returns 0 between a \<open>fun_jump\<close> and a \<open>coach_jump\<close> and orders
  each of the two types by altitude and fall rate, so on a roster that mixes them it need
  not be consistent, and there the language leaves the order to the implementation: what
  is stated below about the order of the exit sequence is stated for the rosters on which
  the function is consistent.
\<close>

fun insert_js :: "('a \<Rightarrow> 'a \<Rightarrow> int) \<Rightarrow> 'a \<Rightarrow> 'a list \<Rightarrow> 'a list" where
  "insert_js cmp x [] = [x]"
| "insert_js cmp x (y # ys) = (if cmp x y < 0 then x # y # ys else y # insert_js cmp x ys)"

definition sort_js :: "('a \<Rightarrow> 'a \<Rightarrow> int) \<Rightarrow> 'a list \<Rightarrow> 'a list" where
  "sort_js cmp xs = foldl (\<lambda>acc x. insert_js cmp x acc) [] xs"

text \<open>\<open>Array.prototype.slice(start, end)\<close> on integer arguments; a negative index counts
  from the end, and \<open>None\<close> is an omitted \<open>end\<close>.\<close>

definition slice_index :: "nat \<Rightarrow> int \<Rightarrow> nat" where
  "slice_index len i = (if i < 0 then nat (max (int len + i) 0) else min (nat i) len)"

definition slice_js :: "'a list \<Rightarrow> int \<Rightarrow> int option \<Rightarrow> 'a list" where
  "slice_js xs start fin =
     (let len = length xs;
          k = slice_index len start;
          final = (case fin of None \<Rightarrow> len | Some e \<Rightarrow> slice_index len e)
      in take (final - k) (drop k xs))"

subsection \<open>Data model\<close>

record Jumper =
  id_jumper :: string
  name :: string
  jumpType :: string
  experienceLevel :: string
  weight :: jsnum
  exitAltitude :: int
  fallRate :: "int option"
  requiresInstructor :: "bool option"
  instructorId :: "string option"

record JumpGroup =
  jumpers :: "Jumper list"
  exitAltitude :: int
  groupType :: string
  estimatedTime :: int

record OptimizedLoad =
  exitOrder :: "Jumper list"
  groups :: "JumpGroup list"
  totalTime :: int
  recommendations :: "string list"

record CapacityResult =
  selectedJumpers :: "Jumper list"
  waitingList :: "Jumper list"
  utilizationScore :: jsnum

definition declaredJumpType :: "string \<Rightarrow> bool" where
  "declaredJumpType t = (t \<in> {''tandem'', ''aff'', ''fun_jump'', ''coach_jump''})"

definition declaredExperienceLevel :: "string \<Rightarrow> bool" where
  "declaredExperienceLevel e = (e \<in> {''beginner'', ''intermediate'', ''advanced'', ''expert''})"

subsection \<open>Exit order\<close>

definition getDefaultFallRate :: "Jumper \<Rightarrow> int" where
  "getDefaultFallRate jumper =
     (if jumpType jumper = ''tandem'' then 120
      else if jumpType jumper = ''aff'' then 110
      else if jumpType jumper = ''fun_jump''
        then (if experienceLevel jumper = ''expert'' then 140 else 130)
      else if jumpType jumper = ''coach_jump'' then 125
      else 130)"

text \<open>\<open>j.fallRate || getDefaultFallRate(j)\<close>: an absent value and the number 0 are falsy.\<close>

definition fallRateOrDefault :: "Jumper \<Rightarrow> int" where
  "fallRateOrDefault j =
     (case fallRate j of None \<Rightarrow> getDefaultFallRate j
      | Some r \<Rightarrow> if r = 0 then getDefaultFallRate j else r)"

text \<open>The comparison function handed to \<open>sort\<close> in \<open>calculateExitOrder\<close>.\<close>

definition exitCompare :: "Jumper \<Rightarrow> Jumper \<Rightarrow> int" where
  "exitCompare a b =
     (if jumpType a = ''tandem'' \<and> jumpType b \<noteq> ''tandem'' then - 1
      else if jumpType b = ''tandem'' \<and> jumpType a \<noteq> ''tandem'' then 1
      else if jumpType a = ''aff'' \<and> jumpType b \<noteq> ''aff'' \<and> jumpType b \<noteq> ''tandem'' then - 1
      else if jumpType b = ''aff'' \<and> jumpType a \<noteq> ''aff'' \<and> jumpType a \<noteq> ''tandem'' then 1
      else if jumpType a = jumpType b then
        (if Jumper.exitAltitude a \<noteq> Jumper.exitAltitude b
           then Jumper.exitAltitude b - Jumper.exitAltitude a
         else fallRateOrDefault a - fallRateOrDefault b)
      else 0)"

subsection \<open>Groups and timing\<close>

definition calculateGroupTime :: "Jumper list \<Rightarrow> int" where
  "calculateGroupTime js = 60 + (int (length js) - 1) * 10"

definition groupKey :: "Jumper \<Rightarrow> string" where
  "groupKey jumper = jumpType jumper @ ''-'' @ js_string_of_int (Jumper.exitAltitude jumper)"

definition mkGroup :: "Jumper list \<Rightarrow> int \<Rightarrow> string \<Rightarrow> JumpGroup" where
  "mkGroup currentGroup currentAltitude currentType =
     \<lparr>jumpers = currentGroup, exitAltitude = currentAltitude, groupType = currentType,
      estimatedTime = calculateGroupTime currentGroup\<rparr>"

text \<open>
  The \<open>for\<close> loop of \<open>createJumpGroups\<close>: the state is the list of finished groups, the
  current group, its altitude and its key.
\<close>

fun groupLoop ::
  "Jumper list \<Rightarrow> JumpGroup list \<Rightarrow> Jumper list \<Rightarrow> int \<Rightarrow> string
     \<Rightarrow> JumpGroup list \<times> Jumper list \<times> int \<times> string" where
  "groupLoop [] gs currentGroup currentAltitude currentType =
     (gs, currentGroup, currentAltitude, currentType)"
| "groupLoop (jumper # rest) gs currentGroup currentAltitude currentType =
     (if currentType \<noteq> groupKey jumper \<or> 8 \<le> length currentGroup then
        groupLoop rest
          (if 0 < length currentGroup
           then gs @ [mkGroup currentGroup currentAltitude currentType] else gs)
          [jumper] (Jumper.exitAltitude jumper) (groupKey jumper)
      else groupLoop rest gs (currentGroup @ [jumper]) currentAltitude currentType)"

definition createJumpGroups :: "Jumper list \<Rightarrow> JumpGroup list" where
  "createJumpGroups js =
     (case groupLoop js [] [] 0 [] of
        (gs, currentGroup, currentAltitude, currentType) \<Rightarrow>
          if 0 < length currentGroup
          then gs @ [mkGroup currentGroup currentAltitude currentType] else gs)"

definition calculateTotalTime :: "JumpGroup list \<Rightarrow> int" where
  "calculateTotalTime gs =
     (let climbTime = 20 * 60;
          groupTimes = foldl (\<lambda>total g. total + estimatedTime g) 0 gs;
          transitionTime = (int (length gs) - 1) * 30
      in climbTime + groupTimes + transitionTime)"

subsection \<open>Recommendations\<close>

definition splitTandemsMsg :: string where
  "splitTandemsMsg = ''Consider splitting tandems across multiple loads for safety''"

definition affCoverageMsg :: string where
  "affCoverageMsg = ''High number of AFF students - ensure adequate instructor coverage''"

definition consolidateMsg :: string where
  "consolidateMsg = ''Multiple altitude changes - consider consolidating groups''"

definition instructorCapacityMsg :: string where
  "instructorCapacityMsg =
     ''Instructor capacity may be exceeded - consider additional instructors''"

definition heavyLoadMsg :: string where
  "heavyLoadMsg = ''Heavy load - verify aircraft weight and balance limits''"

text \<open>\<open>recommendations.push(msg)\<close> under a condition.\<close>

definition pushIf :: "bool \<Rightarrow> string \<Rightarrow> string list \<Rightarrow> string list" where
  "pushIf c msg rs = (if c then rs @ [msg] else rs)"

text \<open>
  \<open>uniqueInstructors\<close> is a \<open>Set\<close> of the mapped \<open>instructorId\<close> fields, the absent
  value included; its \<open>size\<close> is the number of distinct entries.
\<close>

definition generateRecommendations :: "JumpGroup list \<Rightarrow> Jumper list \<Rightarrow> string list" where
  "generateRecommendations gs allJumpers =
     (let tandemCount = length (filter (\<lambda>j. jumpType j = ''tandem'') allJumpers);
          affCount = length (filter (\<lambda>j. jumpType j = ''aff'') allJumpers);
          r1 = pushIf (6 < tandemCount) splitTandemsMsg [];
          r2 = pushIf (4 < affCount) affCoverageMsg r1;
          r3 = pushIf (5 < length gs) consolidateMsg r2;
          instructorRequiredJumpers = filter (\<lambda>j. requiresInstructor j = Some True) allJumpers;
          uniqueInstructors = remdups (map instructorId instructorRequiredJumpers);
          r4 = pushIf (length uniqueInstructors * 2 < length instructorRequiredJumpers)
                 instructorCapacityMsg r3;
          totalWeight = foldl (\<lambda>sum j. js_add sum (weight j)) (Finite 0) allJumpers;
          avgWeight = js_div totalWeight (js_of_int (int (length allJumpers)))
      in pushIf (js_gt avgWeight 200) heavyLoadMsg r4)"

definition calculateExitOrder :: "Jumper list \<Rightarrow> OptimizedLoad" where
  "calculateExitOrder js =
     (let sortedJumpers = sort_js exitCompare js;
          gs = createJumpGroups sortedJumpers
      in \<lparr>exitOrder = sortedJumpers, groups = gs, totalTime = calculateTotalTime gs,
          recommendations = generateRecommendations gs js\<rparr>)"

subsection \<open>Capacity\<close>

definition getJumperPriority :: "Jumper \<Rightarrow> int" where
  "getJumperPriority jumper =
     (let priority = 0;
          priority = priority +
            (if jumpType jumper = ''tandem'' then 100
             else if jumpType jumper = ''aff'' then 80
             else if jumpType jumper = ''coach_jump'' then 60
             else if jumpType jumper = ''fun_jump'' then 40
             else 0);
          priority = (if requiresInstructor jumper = Some True then priority + 20 else priority);
          priority = priority +
            (if experienceLevel jumper = ''beginner'' then 15
             else if experienceLevel jumper = ''intermediate'' then 10
             else if experienceLevel jumper = ''advanced'' then 5
             else if experienceLevel jumper = ''expert'' then 0
             else 0)
      in priority)"

definition priorityCompare :: "Jumper \<Rightarrow> Jumper \<Rightarrow> int" where
  "priorityCompare a b = getJumperPriority b - getJumperPriority a"

definition optimizeCapacity :: "int \<Rightarrow> Jumper list \<Rightarrow> CapacityResult" where
  "optimizeCapacity availableSlots potentialJumpers =
     (let prioritizedJumpers = sort_js priorityCompare potentialJumpers;
          selected = slice_js prioritizedJumpers 0 (Some availableSlots);
          waiting = slice_js prioritizedJumpers availableSlots None
      in \<lparr>selectedJumpers = selected, waitingList = waiting,
          utilizationScore =
            js_mul (js_div (js_of_int (int (length selected))) (js_of_int availableSlots))
              (Finite 100)\<rparr>)"

subsection \<open>Orders behind the two comparison functions\<close>


definition priority_ge :: "Jumper \<Rightarrow> Jumper \<Rightarrow> bool" where
  "priority_ge a b = (getJumperPriority b \<le> getJumperPriority a)"

text \<open>What the loop of \<open>createJumpGroups\<close> maintains for every group it has closed.\<close>

definition groupOk :: "JumpGroup \<Rightarrow> bool" where
  "groupOk g =
     (jumpers g \<noteq> [] \<and> length (jumpers g) \<le> 8
      \<and> list_all (\<lambda>j. groupKey j = groupType g) (jumpers g))"

text \<open>A jumper with a zero fall rate, rewritten as one whose fall rate is absent.\<close>

definition absentIfZero :: "Jumper \<Rightarrow> Jumper" where
  "absentIfZero j = (if fallRate j = Some 0 then j\<lparr>fallRate := None\<rparr> else j)"

text \<open>
  A consistent comparison function on a set of values, as the language defines it: equal
  to itself, symmetric and transitive where it returns 0, transitive where it returns a
  negative and where it returns a positive number. On an array of such values the result
  of \<open>sort\<close> is fixed: the elements in ascending order, equal ones in their input order.
\<close>

definition consistentComparator :: "('a \<Rightarrow> 'a \<Rightarrow> int) \<Rightarrow> 'a set \<Rightarrow> bool" where
  "consistentComparator cmp S =
     (\<forall>a\<in>S. \<forall>b\<in>S. \<forall>c\<in>S.
        cmp a a = 0
        \<and> (cmp a b = 0 \<longrightarrow> cmp b a = 0)
        \<and> (cmp a b = 0 \<and> cmp b c = 0 \<longrightarrow> cmp a c = 0)
        \<and> (cmp a b < 0 \<and> cmp b c < 0 \<longrightarrow> cmp a c < 0)
        \<and> (0 < cmp a b \<and> 0 < cmp b c \<longrightarrow> 0 < cmp a c))"

text \<open>The exact weight of a jumper, for the arithmetic mean of a roster, and the jumpers
  whose weight is a whole, non-negative number of pounds.\<close>

definition weightValue :: "Jumper \<Rightarrow> rat" where
  "weightValue j = (case weight j of Finite w \<Rightarrow> w | _ \<Rightarrow> 0)"

definition meanWeight :: "Jumper list \<Rightarrow> rat" where
  "meanWeight r = sum_list (map weightValue r) / of_nat (length r)"

definition wholePounds :: "Jumper \<Rightarrow> bool" where
  "wholePounds j =
     (case weight j of Finite w \<Rightarrow> 0 \<le> w \<and> w = of_int \<lfloor>w\<rfloor> | _ \<Rightarrow> False)"


text \<open>
  The mean as \<open>generateRecommendations\<close> computes it: the weights added to 0 from left to
  right, every sum rounded, and the total divided by the number of jumpers.
\<close>

definition computedMean :: "Jumper list \<Rightarrow> jsnum" where
  "computedMean r =
     js_div (foldl (\<lambda>sum j. js_add sum (weight j)) (Finite 0) r) (js_of_int (int (length r)))"

subsection \<open>Sample jumpers\<close>

definition tandemLow :: Jumper where
  "tandemLow = \<lparr>id_jumper = ''t1'', name = ''Tandem 1'', jumpType = ''tandem'',
     experienceLevel = ''beginner'', weight = Finite 180, exitAltitude = 10000, fallRate = None,
     requiresInstructor = Some True, instructorId = None\<rparr>"

definition tandemHigh :: Jumper where
  "tandemHigh = \<lparr>id_jumper = ''t2'', name = ''Tandem 2'', jumpType = ''tandem'',
     experienceLevel = ''beginner'', weight = Finite 220, exitAltitude = 14000, fallRate = None,
     requiresInstructor = Some True, instructorId = Some ''i1''\<rparr>"

definition funZero :: Jumper where
  "funZero = \<lparr>id_jumper = ''f1'', name = ''Fun 1'', jumpType = ''fun_jump'',
     experienceLevel = ''expert'', weight = Finite 200, exitAltitude = 14000, fallRate = Some 0,
     requiresInstructor = Some False, instructorId = None\<rparr>"

definition candidate :: "string \<Rightarrow> string \<Rightarrow> Jumper" where
  "candidate i t = \<lparr>id_jumper = i, name = i, jumpType = t, experienceLevel = ''expert'',
     weight = Finite 180, exitAltitude = 14000, fallRate = None, requiresInstructor = None,
     instructorId = None\<rparr>"

definition candidatePool :: "Jumper list" where
  "candidatePool = [candidate ''c1'' ''tandem'', candidate ''c2'' ''tandem'',
     candidate ''c3'' ''aff'', candidate ''c4'' ''fun_jump'', candidate ''c5'' ''fun_jump'']"



definition fun135 :: Jumper where
  "fun135 = \<lparr>id_jumper = ''f2'', name = ''Fun 2'', jumpType = ''fun_jump'',
     experienceLevel = ''expert'', weight = Finite 190, exitAltitude = 14000,
     fallRate = Some 135, requiresInstructor = Some False, instructorId = None\<rparr>"

text \<open>Four jumpers whose weights are the doubles of 181.5, 206.6, 177.3 and 234.6.\<close>

definition weighing :: "string \<Rightarrow> rat \<Rightarrow> Jumper" where
  "weighing i w = \<lparr>id_jumper = i, name = i, jumpType = ''fun_jump'',
     experienceLevel = ''intermediate'', weight = Finite w, exitAltitude = 14000,
     fallRate = None, requiresInstructor = None, instructorId = None\<rparr>"

definition fractionalRoster :: "Jumper list" where
  "fractionalRoster =
     [weighing ''w1'' (363 / 2),
      weighing ''w2'' (7269091273552691 / 35184372088832),
      weighing ''w3'' (3119094585674957 / 17592186044416),
      weighing ''w4'' (8254253692039987 / 35184372088832)]"

section \<open>Properties\<close>

subsection \<open>The sort\<close>

lemma mset_insert_js: "mset (insert_js cmp x ys) = add_mset x (mset ys)"
  by (induction ys) simp_all

lemma sort_js_snoc: "sort_js cmp (xs @ [x]) = insert_js cmp x (sort_js cmp xs)"
  by (simp add: sort_js_def)

lemma mset_sort_js: "mset (sort_js cmp xs) = mset xs"
  by (induction xs rule: rev_induct) (simp_all add: sort_js_snoc mset_insert_js sort_js_def)

lemma set_insert_js: "set (insert_js cmp x ys) = insert x (set ys)"
  by (induction ys) auto

lemma sorted_wrt_insert_js:
  assumes tr: "\<And>a b c. le a b \<Longrightarrow> le b c \<Longrightarrow> le a c"
    and neg: "\<And>a b. cmp a b < 0 \<Longrightarrow> le a b"
    and nonneg: "\<And>a b. \<not> cmp a b < 0 \<Longrightarrow> le b a"
    and srt: "sorted_wrt le ys"
  shows "sorted_wrt le (insert_js cmp x ys)"
  using srt
proof (induction ys)
  case Nil
  show ?case by simp
next
  case (Cons y ys)
  show ?case
  proof (cases "cmp x y < 0")
    case True
    then have "le x y" by (rule neg)
    moreover have "\<forall>z\<in>set ys. le x z"
      using Cons.prems \<open>le x y\<close> tr by auto
    ultimately show ?thesis using True Cons.prems by simp
  next
    case False
    then have "le y x" by (rule nonneg)
    with False Cons show ?thesis by (auto simp: set_insert_js)
  qed
qed

lemma sorted_wrt_sort_js:
  assumes tr: "\<And>a b c. le a b \<Longrightarrow> le b c \<Longrightarrow> le a c"
    and neg: "\<And>a b. cmp a b < 0 \<Longrightarrow> le a b"
    and nonneg: "\<And>a b. \<not> cmp a b < 0 \<Longrightarrow> le b a"
  shows "sorted_wrt le (sort_js cmp xs)"
proof (induction xs rule: rev_induct)
  case Nil
  show ?case by (simp add: sort_js_def)
next
  case (snoc x xs)
  show ?case
    unfolding sort_js_snoc
  proof (rule sorted_wrt_insert_js [where le = le and cmp = cmp])
    show "le a b \<Longrightarrow> le b c \<Longrightarrow> le a c" for a b c by (rule tr)
    show "cmp a b < 0 \<Longrightarrow> le a b" for a b by (rule neg)
    show "\<not> cmp a b < 0 \<Longrightarrow> le b a" for a b by (rule nonneg)
    show "sorted_wrt le (sort_js cmp xs)" by (rule snoc.IH)
  qed
qed

text \<open>Stability: a class of elements that the comparison function does not separate
  and that it places strictly before whatever it places after them.\<close>

lemma filter_insert_js_other: "\<not> P x \<Longrightarrow> filter P (insert_js cmp x ys) = filter P ys"
  by (induction ys) simp_all

lemma filter_insert_js_class:
  assumes tr: "\<And>a b c. le a b \<Longrightarrow> le b c \<Longrightarrow> le a c"
    and nonneg: "\<And>a b. \<not> cmp a b < 0 \<Longrightarrow> le b a"
    and same: "\<And>a b. P a \<Longrightarrow> P b \<Longrightarrow> \<not> cmp a b < 0"
    and strict: "\<And>a b. P a \<Longrightarrow> cmp a b < 0 \<Longrightarrow> \<not> le b a"
    and px: "P x"
    and srt: "sorted_wrt le ys"
  shows "filter P (insert_js cmp x ys) = filter P ys @ [x]"
  using srt
proof (induction ys)
  case Nil
  show ?case using px by simp
next
  case (Cons y ys)
  show ?case
  proof (cases "cmp x y < 0")
    case True
    have "\<not> P z" if "z \<in> set (y # ys)" for z
    proof
      assume "P z"
      then have "le z x" using same [OF px] nonneg by blast
      moreover have "le y z" using that Cons.prems True \<open>P z\<close> same [OF px] by auto
      ultimately have "le y x" by (rule tr [rotated])
      with strict [OF px True] show False by simp
    qed
    then have "filter P (y # ys) = []" by (simp only: filter_empty_conv) blast
    with True px show ?thesis by simp
  next
    case False
    with Cons show ?thesis by simp
  qed
qed

lemma filter_sort_js_class:
  assumes tr: "\<And>a b c. le a b \<Longrightarrow> le b c \<Longrightarrow> le a c"
    and neg: "\<And>a b. cmp a b < 0 \<Longrightarrow> le a b"
    and nonneg: "\<And>a b. \<not> cmp a b < 0 \<Longrightarrow> le b a"
    and same: "\<And>a b. P a \<Longrightarrow> P b \<Longrightarrow> \<not> cmp a b < 0"
    and strict: "\<And>a b. P a \<Longrightarrow> cmp a b < 0 \<Longrightarrow> \<not> le b a"
  shows "filter P (sort_js cmp xs) = filter P xs"
proof (induction xs rule: rev_induct)
  case Nil
  show ?case by (simp add: sort_js_def)
next
  case (snoc x xs)
  have srt: "sorted_wrt le (sort_js cmp xs)"
  proof (rule sorted_wrt_sort_js [where le = le and cmp = cmp])
    show "le a b \<Longrightarrow> le b c \<Longrightarrow> le a c" for a b c by (rule tr)
    show "cmp a b < 0 \<Longrightarrow> le a b" for a b by (rule neg)
    show "\<not> cmp a b < 0 \<Longrightarrow> le b a" for a b by (rule nonneg)
  qed
  show ?case
  proof (cases "P x")
    case True
    have "filter P (insert_js cmp x (sort_js cmp xs)) = filter P (sort_js cmp xs) @ [x]"
    proof (rule filter_insert_js_class [where le = le and cmp = cmp and P = P])
      show "le a b \<Longrightarrow> le b c \<Longrightarrow> le a c" for a b c by (rule tr)
      show "\<not> cmp a b < 0 \<Longrightarrow> le b a" for a b by (rule nonneg)
      show "P a \<Longrightarrow> P b \<Longrightarrow> \<not> cmp a b < 0" for a b by (rule same)
      show "P a \<Longrightarrow> cmp a b < 0 \<Longrightarrow> \<not> le b a" for a b by (rule strict)
      show "P x" by (rule True)
      show "sorted_wrt le (sort_js cmp xs)" by (rule srt)
    qed
    with True snoc show ?thesis by (simp add: sort_js_snoc)
  next
    case False
    with snoc show ?thesis by (simp add: sort_js_snoc filter_insert_js_other)
  qed
qed

subsection \<open>The composite key of a group\<close>

lemma digit_char_inj: "a < 10 \<Longrightarrow> b < 10 \<Longrightarrow> digit_char a = digit_char b \<Longrightarrow> a = b"
proof -
  assume a: "a < 10" and b: "b < 10" and e: "digit_char a = digit_char b"
  have d: "distinct ''0123456789''" by simp
  have l: "length ''0123456789'' = 10" by simp
  from e have "''0123456789'' ! a = ''0123456789'' ! b" by (simp only: digit_char_def)
  with d a b l show "a = b" by (simp only: nth_eq_iff_index_eq)
qed

lemma digit_char_in: "d < 10 \<Longrightarrow> digit_char d \<in> set ''0123456789''"
  unfolding digit_char_def by (rule nth_mem) simp

lemma digits_not_Nil: "digits n \<noteq> []"
  by (subst digits.simps) simp

lemma set_digits: "set (digits n) \<subseteq> set ''0123456789''"
proof (induction n rule: digits.induct)
  case (1 n)
  show ?case
  proof (cases "n < 10")
    case True
    then show ?thesis using digit_char_in [of n] by (subst digits.simps) simp
  next
    case False
    have "n mod 10 < 10" by simp
    then have "digit_char (n mod 10) \<in> set ''0123456789''" by (rule digit_char_in)
    with False "1" show ?thesis by (subst digits.simps) simp
  qed
qed

lemma minus_notin_digits: "CHR ''-'' \<notin> set (digits n)"
  using set_digits [of n] by auto

lemma digits_inj: "digits n = digits m \<Longrightarrow> n = m"
proof (induction n arbitrary: m rule: digits.induct)
  case (1 n)
  show ?case
  proof (cases "n < 10")
    case n: True
    show ?thesis
    proof (cases "m < 10")
      case True
      with n "1.prems" have "digit_char n = digit_char m"
        by (simp add: digits.simps [of n] digits.simps [of m])
      with n True show ?thesis by (rule digit_char_inj)
    next
      case False
      with n "1.prems" digits_not_Nil [of "m div 10"] show ?thesis
        by (simp add: digits.simps [of n] digits.simps [of m])
    qed
  next
    case n: False
    show ?thesis
    proof (cases "m < 10")
      case True
      with n "1.prems" digits_not_Nil [of "n div 10"] show ?thesis
        by (simp add: digits.simps [of n] digits.simps [of m])
    next
      case False
      with n "1.prems" have e: "digits (n div 10) = digits (m div 10)"
        and c: "digit_char (n mod 10) = digit_char (m mod 10)"
        by (simp_all add: digits.simps [of n] digits.simps [of m])
      from "1.IH" [OF n e] have "n div 10 = m div 10" .
      moreover have "n mod 10 = m mod 10"
        by (rule digit_char_inj [OF _ _ c]) simp_all
      ultimately show ?thesis by (metis div_mult_mod_eq)
    qed
  qed
qed

lemma js_string_of_int_inj: "js_string_of_int a = js_string_of_int b \<Longrightarrow> a = b"
proof -
  assume e: "js_string_of_int a = js_string_of_int b"
  have hd_dig: "hd (digits n) \<noteq> CHR ''-''" for n
    using minus_notin_digits [of n] digits_not_Nil [of n] by (cases "digits n") auto
  show "a = b"
  proof (cases "a < 0")
    case a: True
    show ?thesis
    proof (cases "b < 0")
      case True
      with a e have "digits (nat (- a)) = digits (nat (- b))" by (simp add: js_string_of_int_def)
      then have "nat (- a) = nat (- b)" by (rule digits_inj)
      with a True show ?thesis by simp
    next
      case False
      with a e have "CHR ''-'' # digits (nat (- a)) = digits (nat b)"
        by (simp add: js_string_of_int_def)
      then have "hd (digits (nat b)) = CHR ''-''" by (metis list.sel(1))
      with hd_dig show ?thesis by simp
    qed
  next
    case a: False
    show ?thesis
    proof (cases "b < 0")
      case True
      with a e have "digits (nat a) = CHR ''-'' # digits (nat (- b))"
        by (simp add: js_string_of_int_def)
      then have "hd (digits (nat a)) = CHR ''-''" by (metis list.sel(1))
      with hd_dig show ?thesis by simp
    next
      case False
      with a e have "digits (nat a) = digits (nat b)" by (simp add: js_string_of_int_def)
      then have "nat a = nat b" by (rule digits_inj)
      with a False show ?thesis by simp
    qed
  qed
qed

lemma split_at_separator:
  assumes "xs @ c # ys = xs' @ c # ys'" and "c \<notin> set xs" and "c \<notin> set xs'"
  shows "xs = xs' \<and> ys = ys'"
proof -
  have tw: "takeWhile (\<lambda>x. x \<noteq> c) (as @ c # bs) = as" if "c \<notin> set as" for as bs
    using that by (induction as) auto
  have "takeWhile (\<lambda>x. x \<noteq> c) (xs @ c # ys) = xs"
    using assms(2) by (rule tw)
  moreover have "takeWhile (\<lambda>x. x \<noteq> c) (xs' @ c # ys') = xs'"
    using assms(3) by (rule tw)
  ultimately have "xs = xs'" using assms(1) by simp
  with assms(1) show ?thesis by simp
qed

lemma declaredJumpType_no_minus: "declaredJumpType t \<Longrightarrow> CHR ''-'' \<notin> set t"
  by (auto simp: declaredJumpType_def)

lemma groupKey_inj:
  assumes "declaredJumpType (jumpType a)" and "declaredJumpType (jumpType b)"
    and "groupKey a = groupKey b"
  shows "jumpType a = jumpType b \<and> Jumper.exitAltitude a = Jumper.exitAltitude b"
proof -
  from assms(3) have "jumpType a @ CHR ''-'' # js_string_of_int (Jumper.exitAltitude a)
      = jumpType b @ CHR ''-'' # js_string_of_int (Jumper.exitAltitude b)"
    by (simp add: groupKey_def)
  moreover have "CHR ''-'' \<notin> set (jumpType a)" and "CHR ''-'' \<notin> set (jumpType b)"
    using assms(1,2) by (simp_all only: declaredJumpType_no_minus not_False_eq_True)
  ultimately have "jumpType a = jumpType b
      \<and> js_string_of_int (Jumper.exitAltitude a) = js_string_of_int (Jumper.exitAltitude b)"
    by (rule split_at_separator)
  then show ?thesis by (simp add: js_string_of_int_inj)
qed

subsection \<open>Exit order\<close>





lemma exitOrder_eq: "exitOrder (calculateExitOrder r) = sort_js exitCompare r"
  by (simp add: calculateExitOrder_def Let_def)

text \<open>
  C4. For every roster \<open>r\<close>, the exit order of \<open>calculateExitOrder r\<close> is a permutation
  of \<open>r\<close>: the same multiset of jumpers, hence the same number of jumpers and the same
  multiset of ids.
\<close>

theorem exitOrder_permutation:
  "mset (exitOrder (calculateExitOrder r)) = mset r
   \<and> length (exitOrder (calculateExitOrder r)) = length r
   \<and> mset (map id_jumper (exitOrder (calculateExitOrder r))) = mset (map id_jumper r)"
proof -
  have m: "mset (exitOrder (calculateExitOrder r)) = mset r"
    by (simp only: exitOrder_eq mset_sort_js)
  have "size (mset (exitOrder (calculateExitOrder r))) = size (mset r)"
    by (simp only: m)
  then have l: "length (exitOrder (calculateExitOrder r)) = length r"
    by (simp only: size_mset)
  have "image_mset id_jumper (mset (exitOrder (calculateExitOrder r))) = image_mset id_jumper (mset r)"
    by (simp only: m)
  then have i: "mset (map id_jumper (exitOrder (calculateExitOrder r))) = mset (map id_jumper r)"
    by (simp only: mset_map)
  from m l i show ?thesis by blast
qed


subsection \<open>Consistent comparison functions\<close>

lemma insert_js_at:
  assumes "\<forall>a\<in>set ys1. \<not> cmp x a < 0" and "ys2 = [] \<or> cmp x (hd ys2) < 0"
  shows "insert_js cmp x (ys1 @ ys2) = ys1 @ x # ys2"
  using assms by (induction ys1) (cases ys2; simp)+

lemma consistent_subset:
  assumes "consistentComparator cmp S" and "T \<subseteq> S"
  shows "consistentComparator cmp T"
  unfolding consistentComparator_def
proof (intro ballI)
  fix a b c assume "a \<in> T" "b \<in> T" "c \<in> T"
  with assms(2) have "a \<in> S" "b \<in> S" "c \<in> S" by auto
  then show "cmp a a = 0
        \<and> (cmp a b = 0 \<longrightarrow> cmp b a = 0)
        \<and> (cmp a b = 0 \<and> cmp b c = 0 \<longrightarrow> cmp a c = 0)
        \<and> (cmp a b < 0 \<and> cmp b c < 0 \<longrightarrow> cmp a c < 0)
        \<and> (0 < cmp a b \<and> 0 < cmp b c \<longrightarrow> 0 < cmp a c)"
    by (rule assms(1) [unfolded consistentComparator_def, rule_format])
qed

lemma consistent_at:
  assumes "consistentComparator cmp S" and "a \<in> S" and "b \<in> S" and "c \<in> S"
  shows "cmp a a = 0" and "cmp a b = 0 \<Longrightarrow> cmp b a = 0"
    and "cmp a b = 0 \<Longrightarrow> cmp b c = 0 \<Longrightarrow> cmp a c = 0"
    and "cmp a b < 0 \<Longrightarrow> cmp b c < 0 \<Longrightarrow> cmp a c < 0"
    and "0 < cmp a b \<Longrightarrow> 0 < cmp b c \<Longrightarrow> 0 < cmp a c"
proof -
  from assms(2-4) have "cmp a a = 0
        \<and> (cmp a b = 0 \<longrightarrow> cmp b a = 0)
        \<and> (cmp a b = 0 \<and> cmp b c = 0 \<longrightarrow> cmp a c = 0)
        \<and> (cmp a b < 0 \<and> cmp b c < 0 \<longrightarrow> cmp a c < 0)
        \<and> (0 < cmp a b \<and> 0 < cmp b c \<longrightarrow> 0 < cmp a c)"
    by (rule assms(1) [unfolded consistentComparator_def, rule_format])
  then show "cmp a a = 0" and "cmp a b = 0 \<Longrightarrow> cmp b a = 0"
    and "cmp a b = 0 \<Longrightarrow> cmp b c = 0 \<Longrightarrow> cmp a c = 0"
    and "cmp a b < 0 \<Longrightarrow> cmp b c < 0 \<Longrightarrow> cmp a c < 0"
    and "0 < cmp a b \<Longrightarrow> 0 < cmp b c \<Longrightarrow> 0 < cmp a c"
    by simp_all
qed

lemma consistent_class:
  assumes c: "consistentComparator cmp S" and "x \<in> S" "z \<in> S" "y \<in> S" and e: "cmp z x = 0"
  shows "cmp z y = 0 \<longleftrightarrow> cmp x y = 0"
proof
  assume "cmp z y = 0"
  moreover have "cmp x z = 0" using consistent_at(2) [OF c \<open>z \<in> S\<close> \<open>x \<in> S\<close> \<open>x \<in> S\<close>] e .
  ultimately show "cmp x y = 0"
    using consistent_at(3) [OF c \<open>x \<in> S\<close> \<open>z \<in> S\<close> \<open>y \<in> S\<close>] by simp
next
  assume "cmp x y = 0"
  with e show "cmp z y = 0"
    using consistent_at(3) [OF c \<open>z \<in> S\<close> \<open>x \<in> S\<close> \<open>y \<in> S\<close>] by simp
qed

text \<open>In a consistent comparison function, what is neither before nor equal is after.\<close>

lemma consistent_neg:
  assumes c: "consistentComparator cmp S" and "x \<in> S" "b \<in> S"
    and "\<not> cmp b x < 0" and "cmp x b \<noteq> 0"
  shows "cmp x b < 0"
proof (rule ccontr)
  assume "\<not> cmp x b < 0"
  with assms(5) have xb: "0 < cmp x b" by simp
  have "cmp b x \<noteq> 0"
    using consistent_at(2) [OF c \<open>b \<in> S\<close> \<open>x \<in> S\<close> \<open>x \<in> S\<close>] assms(5) by auto
  with assms(4) have "0 < cmp b x" by simp
  with xb have "0 < cmp x x"
    using consistent_at(5) [OF c \<open>x \<in> S\<close> \<open>b \<in> S\<close> \<open>x \<in> S\<close>] by simp
  moreover have "cmp x x = 0" using consistent_at(1) [OF c \<open>x \<in> S\<close> \<open>x \<in> S\<close> \<open>x \<in> S\<close>] .
  ultimately show False by simp
qed

lemma filter_snocD:
  assumes "filter P ys = zs @ [x]"
  shows "\<exists>ys1 ys2. ys = ys1 @ x # ys2 \<and> filter P ys1 = zs \<and> (\<forall>u\<in>set ys2. \<not> P u) \<and> P x"
proof -
  from assms have "x # rev zs = filter P (rev ys)" by (simp add: rev_filter [symmetric])
  then obtain us vs where r: "rev ys = us @ x # vs" and u: "\<forall>u\<in>set us. \<not> P u"
    and px: "P x" and v: "rev zs = filter P vs"
    by (auto dest: Cons_eq_filterD)
  from r have "rev (rev ys) = rev (us @ x # vs)" by (simp only:)
  then have "ys = rev vs @ x # rev us" by simp
  moreover from v have "rev (rev zs) = rev (filter P vs)" by (simp only:)
  then have "filter P (rev vs) = zs" by (simp add: rev_filter)
  ultimately show ?thesis using u px
    by (intro exI [of _ "rev vs"] exI [of _ "rev us"]) simp
qed

text \<open>
  On a consistent comparison function the model's sort returns the one list the language
  allows: the permutation of the input in which no element stands before one that the
  function places before it, and in which the elements the function takes for equal keep
  their input order.
\<close>

lemma sort_js_unique:
  assumes "consistentComparator cmp (set xs)"
    and "mset ys = mset xs"
    and "sorted_wrt (\<lambda>a b. \<not> cmp b a < 0) ys"
    and "\<forall>z\<in>set xs. filter (\<lambda>y. cmp z y = 0) ys = filter (\<lambda>y. cmp z y = 0) xs"
  shows "ys = sort_js cmp xs"
  using assms
proof (induction xs arbitrary: ys rule: rev_induct)
  case Nil
  then show ?case by (simp add: sort_js_def)
next
  case (snoc x xs)
  let ?S = "set (xs @ [x])"
  note c = snoc.prems(1)
  have xS: "x \<in> ?S" by simp
  have setys: "set ys = ?S" using snoc.prems(2) by (rule mset_eq_setD)
  have xx: "cmp x x = 0" using consistent_at(1) [OF c xS xS xS] .
  have "filter (\<lambda>y. cmp x y = 0) ys = filter (\<lambda>y. cmp x y = 0) xs @ [x]"
    using snoc.prems(4) xx by simp
  from filter_snocD [OF this] obtain ys1 ys2 where ys: "ys = ys1 @ x # ys2"
    and f1: "filter (\<lambda>y. cmp x y = 0) ys1 = filter (\<lambda>y. cmp x y = 0) xs"
    and f2: "\<forall>u\<in>set ys2. \<not> cmp x u = 0"
    by blast
  have sub: "set ys1 \<subseteq> ?S" "set ys2 \<subseteq> ?S" using setys ys by auto
  have "ys1 @ ys2 = sort_js cmp xs"
  proof (rule snoc.IH)
    show "consistentComparator cmp (set xs)"
      by (rule consistent_subset [OF c]) auto
    show "mset (ys1 @ ys2) = mset xs" using snoc.prems(2) ys by simp
    show "sorted_wrt (\<lambda>a b. \<not> cmp b a < 0) (ys1 @ ys2)"
      using snoc.prems(3) ys by (auto simp: sorted_wrt_append)
    show "\<forall>z\<in>set xs. filter (\<lambda>y. cmp z y = 0) (ys1 @ ys2) = filter (\<lambda>y. cmp z y = 0) xs"
    proof
      fix z assume z: "z \<in> set xs"
      then have zS: "z \<in> ?S" by simp
      from snoc.prems(4) zS
      have e: "filter (\<lambda>y. cmp z y = 0) ys = filter (\<lambda>y. cmp z y = 0) (xs @ [x])" by blast
      show "filter (\<lambda>y. cmp z y = 0) (ys1 @ ys2) = filter (\<lambda>y. cmp z y = 0) xs"
      proof (cases "cmp z x = 0")
        case False
        with e ys show ?thesis by simp
      next
        case True
        have same: "cmp z y = 0 \<longleftrightarrow> cmp x y = 0" if "y \<in> ?S" for y
          using consistent_class [OF c xS zS that True] .
        have "filter (\<lambda>y. cmp z y = 0) ys2 = []"
          using f2 sub(2) same by (auto simp: filter_empty_conv)
        moreover have "filter (\<lambda>y. cmp z y = 0) ys1 = filter (\<lambda>y. cmp x y = 0) ys1"
          using sub(1) same by (intro filter_cong) auto
        moreover have "filter (\<lambda>y. cmp z y = 0) xs = filter (\<lambda>y. cmp x y = 0) xs"
          using same by (intro filter_cong) auto
        ultimately show ?thesis using f1 by simp
      qed
    qed
  qed
  moreover have "insert_js cmp x (ys1 @ ys2) = ys1 @ x # ys2"
  proof (rule insert_js_at)
    show "\<forall>a\<in>set ys1. \<not> cmp x a < 0"
      using snoc.prems(3) ys by (auto simp: sorted_wrt_append)
    show "ys2 = [] \<or> cmp x (hd ys2) < 0"
    proof (cases ys2)
      case Nil
      then show ?thesis by simp
    next
      case (Cons b bs)
      then have bS: "b \<in> ?S" using sub(2) by auto
      have "\<not> cmp b x < 0" using snoc.prems(3) ys Cons by (auto simp: sorted_wrt_append)
      moreover have "cmp x b \<noteq> 0" using f2 Cons by auto
      ultimately have "cmp x b < 0" by (rule consistent_neg [OF c xS bS])
      with Cons show ?thesis by simp
    qed
  qed
  ultimately show ?case using ys by (simp add: sort_js_snoc)
qed


subsection \<open>Tandems in the exit order\<close>


text \<open>
  On a roster where the comparison function is consistent, the exit order of the model is
  the list every engine returns.
\<close>

lemma exitOrder_determined:
  assumes "consistentComparator exitCompare (set r)"
    and "mset ys = mset r"
    and "sorted_wrt (\<lambda>a b. \<not> exitCompare b a < 0) ys"
    and "\<forall>z\<in>set r. filter (\<lambda>y. exitCompare z y = 0) ys = filter (\<lambda>y. exitCompare z y = 0) r"
  shows "ys = exitOrder (calculateExitOrder r)"
  unfolding exitOrder_eq using assms by (rule sort_js_unique)





subsection \<open>Groups\<close>

lemma groupLoop_concat:
  "groupLoop js gs cur alt ty = (gs', cur', alt', ty')
   \<Longrightarrow> concat (map jumpers gs') @ cur' = concat (map jumpers gs) @ cur @ js"
proof (induction js arbitrary: gs cur alt ty)
  case Nil
  then show ?case by simp
next
  case (Cons j js)
  show ?case
  proof (cases "ty \<noteq> groupKey j \<or> 8 \<le> length cur")
    case True
    with Cons.prems have "groupLoop js
        (if 0 < length cur then gs @ [mkGroup cur alt ty] else gs)
        [j] (Jumper.exitAltitude j) (groupKey j) = (gs', cur', alt', ty')"
      by (simp del: length_greater_0_conv)
    from Cons.IH [OF this] show ?thesis by (simp add: mkGroup_def)
  next
    case False
    with Cons.prems have "groupLoop js gs (cur @ [j]) alt ty = (gs', cur', alt', ty')"
      by simp
    from Cons.IH [OF this] show ?thesis by simp
  qed
qed

lemma createJumpGroups_concat: "concat (map jumpers (createJumpGroups js)) = js"
proof -
  obtain gs cur alt ty where l: "groupLoop js [] [] 0 [] = (gs, cur, alt, ty)"
    by (cases "groupLoop js [] [] 0 []") auto
  from groupLoop_concat [OF l] have "concat (map jumpers gs) @ cur = js" by simp
  with l show ?thesis by (auto simp: createJumpGroups_def mkGroup_def)
qed

lemma groupLoop_inv:
  assumes "groupLoop js gs cur alt ty = (gs', cur', alt', ty')"
    and "\<forall>g\<in>set gs. groupOk g" and "length cur \<le> 8" and "\<forall>j\<in>set cur. groupKey j = ty"
  shows "(\<forall>g\<in>set gs'. groupOk g) \<and> length cur' \<le> 8 \<and> (\<forall>j\<in>set cur'. groupKey j = ty')"
  using assms
proof (induction js arbitrary: gs cur alt ty)
  case Nil
  then show ?case by simp
next
  case (Cons j js)
  show ?case
  proof (cases "ty \<noteq> groupKey j \<or> 8 \<le> length cur")
    case True
    let ?gs = "if 0 < length cur then gs @ [mkGroup cur alt ty] else gs"
    from True Cons.prems(1) have l: "groupLoop js ?gs [j] (Jumper.exitAltitude j) (groupKey j)
         = (gs', cur', alt', ty')"
      by (simp del: length_greater_0_conv)
    have "groupOk (mkGroup cur alt ty)" if "0 < length cur"
      using that Cons.prems(3,4) by (simp add: groupOk_def mkGroup_def list_all_iff)
    with Cons.prems(2) have g: "\<forall>g\<in>set ?gs. groupOk g" by auto
    show ?thesis by (rule Cons.IH [OF l g]) simp_all
  next
    case False
    with Cons.prems(1) have l: "groupLoop js gs (cur @ [j]) alt ty = (gs', cur', alt', ty')"
      by simp
    from False Cons.prems(3) have n: "length (cur @ [j]) \<le> 8" by simp
    from False Cons.prems(4) have k: "\<forall>x\<in>set (cur @ [j]). groupKey x = ty" by auto
    show ?thesis by (rule Cons.IH [OF l Cons.prems(2) n k])
  qed
qed

lemma createJumpGroups_ok: "g \<in> set (createJumpGroups js) \<Longrightarrow> groupOk g"
proof -
  assume m: "g \<in> set (createJumpGroups js)"
  obtain gs cur alt ty where l: "groupLoop js [] [] 0 [] = (gs, cur, alt, ty)"
    by (cases "groupLoop js [] [] 0 []") auto
  have "(\<forall>g\<in>set gs. groupOk g) \<and> length cur \<le> 8 \<and> (\<forall>j\<in>set cur. groupKey j = ty)"
    by (rule groupLoop_inv [OF l]) simp_all
  moreover from this have "groupOk (mkGroup cur alt ty)" if "0 < length cur"
    using that by (simp add: groupOk_def mkGroup_def list_all_iff)
  ultimately show ?thesis using m l
    by (auto simp: createJumpGroups_def split: if_splits)
qed

lemma groups_eq: "groups (calculateExitOrder r) = createJumpGroups (sort_js exitCompare r)"
  by (simp add: calculateExitOrder_def Let_def)

text \<open>
  C6. For every roster, the jumpers of the groups, concatenated in the order of the groups,
  are the exit order itself: the groups are contiguous, do not overlap and cover every
  jumper once. An empty roster gives no group.
\<close>

theorem groups_concat:
  "concat (map jumpers (groups (calculateExitOrder r))) = exitOrder (calculateExitOrder r)
   \<and> groups (calculateExitOrder []) = []"
proof
  show "concat (map jumpers (groups (calculateExitOrder r))) = exitOrder (calculateExitOrder r)"
    by (simp only: groups_eq exitOrder_eq createJumpGroups_concat)
  show "groups (calculateExitOrder []) = []"
    by (simp add: groups_eq sort_js_def createJumpGroups_def)
qed

text \<open>
  C7. For every roster, a group holds at most 8 jumpers, and the jumpers of a group have
  the same key string, the \<open>groupType\<close> of the group. When the roster's jump types are
  among the four declared ones, the key determines the pair: the jumpers of a group have
  the same \<open>jumpType\<close> and the same \<open>exitAltitude\<close>.
\<close>

theorem groups_bounded:
  "(\<forall>g\<in>set (groups (calculateExitOrder r)).
      length (jumpers g) \<le> 8 \<and> (\<forall>a\<in>set (jumpers g). groupKey a = groupType g))
   \<and> ((\<forall>j\<in>set r. declaredJumpType (jumpType j)) \<longrightarrow>
      (\<forall>g\<in>set (groups (calculateExitOrder r)). \<forall>a\<in>set (jumpers g). \<forall>b\<in>set (jumpers g).
         jumpType a = jumpType b \<and> Jumper.exitAltitude a = Jumper.exitAltitude b))"
proof (intro conjI ballI impI)
  fix g assume "g \<in> set (groups (calculateExitOrder r))"
  then have "groupOk g" by (simp only: groups_eq createJumpGroups_ok)
  then show "length (jumpers g) \<le> 8" by (simp add: groupOk_def)
  fix a assume "a \<in> set (jumpers g)"
  with \<open>groupOk g\<close> show "groupKey a = groupType g" by (simp add: groupOk_def list_all_iff)
next
  fix g a b
  assume d: "\<forall>j\<in>set r. declaredJumpType (jumpType j)"
    and g: "g \<in> set (groups (calculateExitOrder r))"
    and a: "a \<in> set (jumpers g)" and b: "b \<in> set (jumpers g)"
  from g have ok: "groupOk g" by (simp only: groups_eq createJumpGroups_ok)
  have "set (concat (map jumpers (groups (calculateExitOrder r)))) = set r"
    by (simp only: groups_eq createJumpGroups_concat set_mset_mset [symmetric] mset_sort_js)
  with g a b have "a \<in> set r" and "b \<in> set r" by auto
  with d have "declaredJumpType (jumpType a)" and "declaredJumpType (jumpType b)" by auto
  moreover from ok a b have "groupKey a = groupKey b" by (simp add: groupOk_def list_all_iff)
  ultimately show "jumpType a = jumpType b" and "Jumper.exitAltitude a = Jumper.exitAltitude b"
    using groupKey_inj by blast+
qed

subsection \<open>Rounding\<close>

lemma pow2_powi: "pow2 e = 2 powi e"
  by (simp add: pow2_def power_int_def field_simps)

lemma pow2_pos: "0 < pow2 e"
  by (simp add: pow2_def)

lemma pow2_add: "pow2 (a + b) = pow2 a * pow2 b"
  by (simp add: pow2_powi power_int_add)

lemma pow2_mono: "a \<le> b \<Longrightarrow> pow2 a \<le> pow2 b"
  by (simp add: pow2_powi power_int_increasing)

lemma pow2_Suc: "pow2 (e + 1) = pow2 e * 2"
  by (simp add: pow2_powi power_int_add_1)

lemma pow2_pred: "pow2 (e - 1) = pow2 e / 2"
  using pow2_Suc [of "e - 1"] by simp

lemma ilog2_bounds: "0 < x \<Longrightarrow> pow2 (ilog2 x) \<le> x \<and> x < pow2 (ilog2 x + 1)"
proof (induction x rule: ilog2.induct)
  case (1 x)
  show ?case
  proof (cases "2 \<le> x")
    case True
    with "1.prems" have e: "ilog2 x = ilog2 (x / 2) + 1" by (subst ilog2.simps) simp
    from "1.prems" True have "pow2 (ilog2 (x / 2)) \<le> x / 2 \<and> x / 2 < pow2 (ilog2 (x / 2) + 1)"
      by (intro "1.IH"(1)) simp_all
    moreover have "pow2 (ilog2 (x / 2) + 1) = pow2 (ilog2 (x / 2)) * 2"
      and "pow2 (ilog2 (x / 2) + 1 + 1) = pow2 (ilog2 (x / 2) + 1) * 2"
      by (rule pow2_Suc)+
    ultimately show ?thesis unfolding e by linarith
  next
    case two: False
    show ?thesis
    proof (cases "x < 1")
      case True
      with "1.prems" two have e: "ilog2 x = ilog2 (x * 2) - 1" by (subst ilog2.simps) simp
      from "1.prems" two True
      have "pow2 (ilog2 (x * 2)) \<le> x * 2 \<and> x * 2 < pow2 (ilog2 (x * 2) + 1)"
        by (intro "1.IH"(2)) simp_all
      moreover have "pow2 (ilog2 (x * 2) - 1) = pow2 (ilog2 (x * 2)) / 2"
        by (rule pow2_pred)
      moreover have "pow2 (ilog2 (x * 2) - 1 + 1) = pow2 (ilog2 (x * 2))" by simp
      moreover have "pow2 (ilog2 (x * 2) + 1) = pow2 (ilog2 (x * 2)) * 2" by (rule pow2_Suc)
      ultimately show ?thesis unfolding e by linarith
    next
      case False
      with "1.prems" two have "ilog2 x = 0" by (subst ilog2.simps) simp
      with two False show ?thesis by (simp add: pow2_def)
    qed
  qed
qed

lemma ilog2_le: "0 < x \<Longrightarrow> x < pow2 k \<Longrightarrow> ilog2 x < k"
proof (rule ccontr)
  assume x: "0 < x" and u: "x < pow2 k" and "\<not> ilog2 x < k"
  then have "pow2 k \<le> pow2 (ilog2 x)" by (intro pow2_mono) simp
  also have "\<dots> \<le> x" using ilog2_bounds [OF x] by simp
  finally show False using u by simp
qed

lemma ilog2_ge: "pow2 k \<le> x \<Longrightarrow> k \<le> ilog2 x"
proof (rule ccontr)
  assume l: "pow2 k \<le> x" and "\<not> k \<le> ilog2 x"
  then have "pow2 (ilog2 x + 1) \<le> pow2 k" by (intro pow2_mono) simp
  moreover have "0 < x" using l pow2_pos [of k] by simp
  ultimately show False using ilog2_bounds [of x] l by simp
qed

lemma round_half_even_of_int: "round_half_even (of_int k) = k"
  by (simp add: round_half_even_def)

lemma round_half_even_le: "y \<le> of_int k \<Longrightarrow> round_half_even y \<le> k"
proof -
  assume a: "y \<le> of_int k"
  show ?thesis
  proof (cases "y = of_int k")
    case True
    then show ?thesis by (simp add: round_half_even_of_int)
  next
    case False
    with a have "y < of_int k" by simp
    then have "\<lfloor>y\<rfloor> < k" by (simp only: floor_less_iff)
    then show ?thesis by (simp add: round_half_even_def Let_def)
  qed
qed

lemma round_half_even_ge: "of_int k \<le> y \<Longrightarrow> k \<le> round_half_even y"
proof -
  assume "of_int k \<le> y"
  then have "k \<le> \<lfloor>y\<rfloor>" by (simp only: le_floor_iff)
  then show ?thesis by (simp add: round_half_even_def Let_def)
qed


lemma pow2_neg: "e \<le> 0 \<Longrightarrow> pow2 e = 1 / of_int (2 ^ nat (- e))"
  by (cases "e = 0") (simp_all add: pow2_def)

lemma pow2_nonneg: "0 \<le> e \<Longrightarrow> pow2 e = of_int (2 ^ nat e)"
  by (simp add: pow2_def)

lemma round64_pos:
  assumes "0 < x"
  shows "round64 x =
     (let e = max (ilog2 x - 52) (- 1074);
          y = of_int (round_half_even (x / pow2 e)) * pow2 e
      in if pow2 1024 \<le> y then PosInfinity else Finite y)"
  using assms by (simp add: round64_def Let_def)

lemma round64_exact:
  assumes x: "0 < x" and n: "x / pow2 (max (ilog2 x - 52) (- 1074)) = of_int n"
    and b: "x < pow2 1024"
  shows "round64 x = Finite x"
proof -
  let ?e = "max (ilog2 x - 52) (- 1074)"
  have "of_int (round_half_even (x / pow2 ?e)) * pow2 ?e = of_int n * pow2 ?e"
    by (simp only: n round_half_even_of_int)
  also have "\<dots> = x / pow2 ?e * pow2 ?e" by (simp only: n)
  also have "\<dots> = x" using pow2_pos [of ?e] by simp
  finally have "of_int (round_half_even (x / pow2 ?e)) * pow2 ?e = x" .
  with b show ?thesis by (simp add: round64_pos [OF x] Let_def)
qed

lemma round64_of_int:
  assumes "0 \<le> k" and "k \<le> 2 ^ 53"
  shows "round64 (of_int k) = Finite (of_int k)"
proof (cases "k = 0")
  case True
  then show ?thesis by (simp add: round64_def)
next
  case False
  let ?x = "of_int k :: rat"
  from False assms have x: "0 < ?x" and one: "pow2 0 \<le> ?x" by (simp_all add: pow2_def)
  from one have l0: "0 \<le> ilog2 ?x" by (rule ilog2_ge)
  have "?x \<le> of_int (2 ^ 53)" using assms(2) by (simp only: of_int_le_iff)
  also have "\<dots> < pow2 54" by (simp add: pow2_def)
  finally have \<open>?x < pow2 54\<close> .
  with x have l54: "ilog2 ?x < 54" by (rule ilog2_le)
  have "pow2 54 \<le> pow2 1024" by (rule pow2_mono) simp
  with \<open>?x < pow2 54\<close> have big: "?x < pow2 1024" by (rule less_le_trans)
  from l0 have e: "max (ilog2 ?x - 52) (- 1074) = ilog2 ?x - 52" by simp
  show ?thesis
  proof (cases "ilog2 ?x \<le> 52")
    case True
    then have "pow2 (ilog2 ?x - 52) = 1 / of_int (2 ^ nat (- (ilog2 ?x - 52)))"
      by (intro pow2_neg) simp
    then have "?x / pow2 (ilog2 ?x - 52) = of_int (k * 2 ^ nat (- (ilog2 ?x - 52)))"
      by simp
    with e have "?x / pow2 (max (ilog2 ?x - 52) (- 1074))
        = of_int (k * 2 ^ nat (- (ilog2 ?x - 52)))" by simp
    with x show ?thesis using big by (rule round64_exact)
  next
    case False
    with l54 have l: "ilog2 ?x = 53" by simp
    from ilog2_bounds [OF x] l have "of_int (2 ^ 53) \<le> ?x" by (simp add: pow2_def)
    then have "2 ^ 53 \<le> k" by (simp only: of_int_le_iff)
    with assms(2) have k: "k = 2 ^ 53" by simp
    have "?x / pow2 (max (ilog2 ?x - 52) (- 1074)) = of_int (2 ^ 52)"
      unfolding e l by (simp add: k pow2_def)
    with x show ?thesis using big by (rule round64_exact)
  qed
qed

lemma round64_le_200: "x \<le> 200 \<Longrightarrow> \<not> js_gt (round64 x) 200"
proof -
  assume le: "x \<le> 200"
  define e where "e = max (ilog2 \<bar>x\<bar> - 52) (- 1074)"
  define y where "y = of_int (round_half_even (\<bar>x\<bar> / pow2 e)) * pow2 e"
  have r: "round64 x =
      (if x = 0 then Finite 0
       else if pow2 1024 \<le> y then (if 0 < x then PosInfinity else NegInfinity)
       else Finite (if 0 < x then y else - y))"
    by (simp only: round64_def Let_def e_def y_def)
  have "of_int 0 \<le> \<bar>x\<bar> / pow2 e" using pow2_pos [of e] by simp
  then have "0 \<le> round_half_even (\<bar>x\<bar> / pow2 e)" by (rule round_half_even_ge)
  then have y0: "0 \<le> y" using pow2_pos [of e] by (simp add: y_def)
  consider "x \<le> 0" | "0 < x" by linarith
  then show ?thesis
  proof cases
    case 1
    with y0 show ?thesis by (simp add: r js_gt_def)
  next
    case 2
    then have "\<bar>x\<bar> < pow2 8" using le by (simp add: pow2_def)
    moreover from 2 have "0 < \<bar>x\<bar>" by simp
    ultimately have "ilog2 \<bar>x\<bar> < 8" by (rule ilog2_le [rotated])
    then have e: "e \<le> 0" by (simp add: e_def)
    then have p: "pow2 e = 1 / of_int (2 ^ nat (- e))" by (rule pow2_neg)
    have "\<bar>x\<bar> \<le> 200" using 2 le by simp
    then have "\<bar>x\<bar> / pow2 e \<le> 200 / pow2 e"
      using pow2_pos [of e] by (simp only: divide_le_cancel) simp
    also have "200 / pow2 e = of_int (200 * 2 ^ nat (- e))" by (simp add: p)
    finally have "round_half_even (\<bar>x\<bar> / pow2 e) \<le> 200 * 2 ^ nat (- e)"
      by (rule round_half_even_le)
    then have "(of_int (round_half_even (\<bar>x\<bar> / pow2 e)) :: rat) \<le> of_int (200 * 2 ^ nat (- e))"
      by (simp only: of_int_le_iff)
    then have "y \<le> of_int (200 * 2 ^ nat (- e)) * pow2 e"
      unfolding y_def using pow2_pos [of e] by (simp only: mult_le_cancel_right) simp
    also have "\<dots> = 200" by (simp add: p)
    finally have y: "y \<le> 200" .
    have "pow2 8 \<le> pow2 1024" by (rule pow2_mono) simp
    moreover have "(200 :: rat) < pow2 8" by (simp add: pow2_def)
    ultimately have "\<not> pow2 1024 \<le> y" using y by linarith
    with y 2 show ?thesis by (simp add: r js_gt_def)
  qed
qed

lemma round64_gt_200: "200 + pow2 (- 45) \<le> x \<Longrightarrow> js_gt (round64 x) 200"
proof -
  assume ge: "200 + pow2 (- 45) \<le> x"
  then have x: "0 < x" using pow2_pos [of "- 45"] by simp
  let ?e = "max (ilog2 x - 52) (- 1074)"
  let ?y = "of_int (round_half_even (x / pow2 ?e)) * pow2 ?e"
  have "pow2 7 \<le> x" using ge pow2_pos [of "- 45"] by (simp add: pow2_def [of 7])
  then have l7: "7 \<le> ilog2 x" by (rule ilog2_ge)
  then have e: "?e = ilog2 x - 52" by simp
  have y: "200 < ?y"
  proof (cases "ilog2 x = 7")
    case True
    with e have e45: "?e = - 45" by simp
    have p: "pow2 (- 45) = 1 / of_int (2 ^ 45)" by (simp add: pow2_def)
    have "of_int (200 * 2 ^ 45 + 1) = (200 + pow2 (- 45)) / pow2 (- 45)"
      by (simp add: p field_simps)
    also have "\<dots> \<le> x / pow2 (- 45)"
      using ge pow2_pos [of "- 45"] by (simp only: divide_le_cancel) simp
    finally have "200 * 2 ^ 45 + 1 \<le> round_half_even (x / pow2 (- 45))"
      by (rule round_half_even_ge)
    then have "(of_int (200 * 2 ^ 45 + 1) :: rat) \<le> of_int (round_half_even (x / pow2 (- 45)))"
      by (simp only: of_int_le_iff)
    then have "of_int (200 * 2 ^ 45 + 1) * pow2 (- 45)
        \<le> of_int (round_half_even (x / pow2 (- 45))) * pow2 (- 45)"
      using pow2_pos [of "- 45"] by (simp only: mult_le_cancel_right) simp
    moreover have "200 < of_int (200 * 2 ^ 45 + 1) * pow2 (- 45)" by (simp add: p)
    ultimately show ?thesis unfolding e45 by (rule less_le_trans [rotated])
  next
    case False
    with l7 have l8: "8 \<le> ilog2 x" by simp
    have "pow2 (ilog2 x) = pow2 (52 + (ilog2 x - 52))" by simp
    also have "\<dots> = pow2 52 * pow2 (ilog2 x - 52)" by (rule pow2_add)
    finally have split: "pow2 (ilog2 x) = pow2 52 * pow2 (ilog2 x - 52)" .
    have "pow2 (ilog2 x) \<le> x" using ilog2_bounds [OF x] by simp
    then have "pow2 52 * pow2 (ilog2 x - 52) / pow2 (ilog2 x - 52) \<le> x / pow2 (ilog2 x - 52)"
      using pow2_pos [of "ilog2 x - 52"] unfolding split by (simp only: divide_le_cancel) simp
    then have "of_int (2 ^ 52) \<le> x / pow2 (ilog2 x - 52)"
      using pow2_pos [of "ilog2 x - 52"] by (simp add: pow2_def [of 52])
    then have "2 ^ 52 \<le> round_half_even (x / pow2 (ilog2 x - 52))"
      by (rule round_half_even_ge)
    then have "(of_int (2 ^ 52) :: rat) \<le> of_int (round_half_even (x / pow2 (ilog2 x - 52)))"
      by (simp only: of_int_le_iff)
    then have "of_int (2 ^ 52) * pow2 (ilog2 x - 52)
        \<le> of_int (round_half_even (x / pow2 (ilog2 x - 52))) * pow2 (ilog2 x - 52)"
      using pow2_pos [of "ilog2 x - 52"] by (simp only: mult_le_cancel_right) simp
    moreover have "of_int (2 ^ 52) * pow2 (ilog2 x - 52) = pow2 (ilog2 x)"
      unfolding split by (simp add: pow2_def [of 52])
    moreover have "pow2 8 \<le> pow2 (ilog2 x)" using l8 by (rule pow2_mono)
    moreover have "(200 :: rat) < pow2 8" by (simp add: pow2_def)
    ultimately show ?thesis unfolding e by linarith
  qed
  then show ?thesis by (simp add: round64_pos [OF x] Let_def js_gt_def)
qed


text \<open>The double of a positive rational whose binary exponent is known.\<close>

lemma round64_at:
  assumes x: "0 < x" and lo: "pow2 k \<le> x" and hi: "x < pow2 (k + 1)"
    and k: "- 1022 \<le> k" "k < 1023"
  shows "round64 x = Finite (of_int (round_half_even (x / pow2 (k - 52))) * pow2 (k - 52))"
proof -
  from lo have "k \<le> ilog2 x" by (rule ilog2_ge)
  moreover from x hi have "ilog2 x < k + 1" by (rule ilog2_le)
  ultimately have l: "ilog2 x = k" by simp
  with k have e: "max (ilog2 x - 52) (- 1074) = k - 52" by simp
  have "pow2 (k + 1) = pow2 (53 + (k - 52))" by (rule arg_cong [where f = pow2]) simp
  also have "\<dots> = pow2 53 * pow2 (k - 52)" by (rule pow2_add)
  finally have split: "pow2 (k + 1) = pow2 53 * pow2 (k - 52)" .
  have "x / pow2 (k - 52) \<le> pow2 53 * pow2 (k - 52) / pow2 (k - 52)"
    using hi pow2_pos [of "k - 52"] unfolding split by (simp only: divide_le_cancel) simp
  then have "x / pow2 (k - 52) \<le> of_int (2 ^ 53)"
    using pow2_pos [of "k - 52"] by (simp add: pow2_def [of 53])
  then have "round_half_even (x / pow2 (k - 52)) \<le> 2 ^ 53" by (rule round_half_even_le)
  then have "(of_int (round_half_even (x / pow2 (k - 52))) :: rat) \<le> of_int (2 ^ 53)"
    by (simp only: of_int_le_iff)
  then have "of_int (round_half_even (x / pow2 (k - 52))) * pow2 (k - 52)
      \<le> of_int (2 ^ 53) * pow2 (k - 52)"
    using pow2_pos [of "k - 52"] by (simp only: mult_le_cancel_right) simp
  also have "of_int (2 ^ 53) * pow2 (k - 52) = pow2 (k + 1)"
    unfolding split by (simp add: pow2_def [of 53])
  also have "\<dots> \<le> pow2 1023" using k by (intro pow2_mono) simp
  also have "\<dots> < pow2 1024" using pow2_Suc [of 1023] pow2_pos [of 1023] by simp
  finally have "\<not> pow2 1024
      \<le> of_int (round_half_even (x / pow2 (k - 52))) * pow2 (k - 52)" by simp
  then show ?thesis by (simp add: round64_pos [OF x] Let_def e)
qed

subsection \<open>Recommendations\<close>

lemma recommendations_eq:
  "recommendations (calculateExitOrder r)
   = generateRecommendations (createJumpGroups (sort_js exitCompare r)) r"
  by (simp add: calculateExitOrder_def Let_def)

lemma set_pushIf: "set (pushIf c msg rs) = (if c then insert msg (set rs) else set rs)"
  by (simp add: pushIf_def)

lemma heavy_iff:
  "heavyLoadMsg \<in> set (generateRecommendations gs r) \<longleftrightarrow> js_gt (computedMean r) 200"
  by (simp add: generateRecommendations_def Let_def set_pushIf computedMean_def heavyLoadMsg_def
      splitTandemsMsg_def affCoverageMsg_def consolidateMsg_def instructorCapacityMsg_def)

lemma js_of_int_exact: "0 \<le> k \<Longrightarrow> k \<le> 2 ^ 53 \<Longrightarrow> js_of_int k = Finite (of_int k)"
  by (simp only: js_of_int_def round64_of_int)

lemma wholePounds_weight:
  "wholePounds j \<Longrightarrow> weight j = Finite (of_int \<lfloor>weightValue j\<rfloor>) \<and> 0 \<le> \<lfloor>weightValue j\<rfloor>
     \<and> weightValue j = of_int \<lfloor>weightValue j\<rfloor>"
  by (cases "weight j") (simp_all add: wholePounds_def weightValue_def)

lemma whole_sum:
  "\<forall>j\<in>set r. wholePounds j
   \<Longrightarrow> sum_list (map weightValue r) = of_int (sum_list (map (\<lambda>j. \<lfloor>weightValue j\<rfloor>) r))
     \<and> 0 \<le> sum_list (map (\<lambda>j. \<lfloor>weightValue j\<rfloor>) r)"
proof (induction r)
  case Nil
  show ?case by simp
next
  case (Cons j js)
  then have "wholePounds j" by simp
  from wholePounds_weight [OF this] Cons show ?case by simp
qed

lemma foldl_whole:
  assumes "\<forall>j\<in>set r. wholePounds j" and "0 \<le> a"
    and "of_int a + sum_list (map weightValue r) \<le> 2 ^ 53"
  shows "foldl (\<lambda>sum j. js_add sum (weight j)) (Finite (of_int a)) r
     = Finite (of_int a + sum_list (map weightValue r))"
  using assms
proof (induction r arbitrary: a)
  case Nil
  show ?case by simp
next
  case (Cons j js)
  let ?k = "\<lfloor>weightValue j\<rfloor>"
  from Cons.prems(1) have wj: "wholePounds j" and wjs: "\<forall>j\<in>set js. wholePounds j" by simp_all
  note w = wholePounds_weight [OF wj]
  from whole_sum [OF wjs] have rest: "0 \<le> sum_list (map weightValue js)" by simp
  have v: "weightValue j = of_int ?k" using w by simp
  have bound: "(of_int (a + ?k) :: rat) + sum_list (map weightValue js) \<le> 2 ^ 53"
    using Cons.prems(3) v by simp
  with rest have "(of_int (a + ?k) :: rat) \<le> of_int (2 ^ 53)" by simp
  then have le: "a + ?k \<le> 2 ^ 53" by (simp only: of_int_le_iff)
  have ge: "0 \<le> a + ?k" using Cons.prems(2) w by simp
  have "js_add (Finite (of_int a)) (weight j) = round64 (of_int (a + ?k))"
    using w by simp
  also have "\<dots> = Finite (of_int (a + ?k))" using ge le by (rule round64_of_int)
  finally have step: "js_add (Finite (of_int a)) (weight j) = Finite (of_int (a + ?k))" .
  have "foldl (\<lambda>sum j. js_add sum (weight j)) (Finite (of_int (a + ?k))) js
      = Finite (of_int (a + ?k) + sum_list (map weightValue js))"
    using wjs ge bound by (rule Cons.IH)
  then show ?case using step v by simp
qed

lemma computedMean_whole:
  assumes w: "\<forall>j\<in>set r. wholePounds j" and s: "sum_list (map weightValue r) \<le> 2 ^ 53"
    and n: "length r < 2 ^ 32"
  shows "js_gt (computedMean r) 200 \<longleftrightarrow> r \<noteq> [] \<and> 200 < meanWeight r"
proof (cases "r = []")
  case True
  then show ?thesis by (simp add: computedMean_def js_of_int_def round64_def js_gt_def)
next
  case False
  let ?t = "sum_list (map (\<lambda>j. \<lfloor>weightValue j\<rfloor>) r)"
  let ?n = "int (length r)"
  from whole_sum [OF w] have t: "sum_list (map weightValue r) = of_int ?t" and t0: "0 \<le> ?t"
    by simp_all
  have "foldl (\<lambda>sum j. js_add sum (weight j)) (Finite (of_int 0)) r
      = Finite (of_int 0 + sum_list (map weightValue r))"
    using w s by (intro foldl_whole) simp_all
  then have total: "foldl (\<lambda>sum j. js_add sum (weight j)) (Finite 0) r = Finite (of_int ?t)"
    using t by simp
  have npos: "0 < ?n" using False by simp
  have "?n \<le> 2 ^ 53" using n by simp
  then have len: "js_of_int ?n = Finite (of_int ?n)" by (intro js_of_int_exact) simp_all
  have cm: "computedMean r = round64 (of_int ?t / of_int ?n)"
    using npos by (simp add: computedMean_def total len)
  have mw: "meanWeight r = of_int ?t / of_int ?n" by (simp add: meanWeight_def t)
  show ?thesis
  proof (cases "200 < meanWeight r")
    case True
    then have "200 * of_int ?n < (of_int ?t :: rat)"
      using npos unfolding mw by (simp add: pos_less_divide_eq)
    then have "(of_int (200 * ?n) :: rat) < of_int ?t" by simp
    then have "200 * ?n < ?t" by (simp only: of_int_less_iff)
    then have "200 * ?n + 1 \<le> ?t" by simp
    then have "(of_int (200 * ?n + 1) :: rat) \<le> of_int ?t" by (simp only: of_int_le_iff)
    then have "(200 * of_int ?n + 1) / of_int ?n \<le> (of_int ?t :: rat) / of_int ?n"
      using npos by (simp add: divide_le_cancel)
    moreover have "(200 * of_int ?n + 1) / of_int ?n = (200 :: rat) + 1 / of_int ?n"
      using npos by (simp add: field_simps)
    moreover have "pow2 (- 45) \<le> 1 / of_int ?n"
    proof -
      have "?n \<le> 2 ^ 45" using n by simp
      then have "(of_int ?n :: rat) \<le> of_int (2 ^ 45)" by (simp only: of_int_le_iff)
      then have "1 / (of_int (2 ^ 45) :: rat) \<le> 1 / of_int ?n"
        using npos by (intro divide_left_mono) simp_all
      then show ?thesis by (simp add: pow2_def)
    qed
    ultimately have "200 + pow2 (- 45) \<le> of_int ?t / of_int ?n" by linarith
    then have "js_gt (round64 (of_int ?t / of_int ?n)) 200" by (rule round64_gt_200)
    with True False show ?thesis by (simp add: cm)
  next
    case le: False
    then have "of_int ?t / of_int ?n \<le> (200 :: rat)" by (simp add: mw)
    then have "\<not> js_gt (round64 (of_int ?t / of_int ?n)) 200" by (rule round64_le_200)
    with le show ?thesis by (simp add: cm)
  qed
qed

text \<open>
  C9, amended. The weight warning is emitted exactly when the mean as the code computes
  it in double precision is greater than 200. On a roster of fewer than \<open>2\<^sup>3\<^sup>2\<close> jumpers
  whose weights are whole, non-negative numbers of a sum of at most \<open>2\<^sup>5\<^sup>3\<close>, that is
  exactly when the roster is not empty and the arithmetic mean of the weights is greater
  than 200, so that a mean of exactly 200 gives no warning there. The empty roster gives
  no warning: its quotient is \<open>NaN\<close>.
\<close>

theorem heavy_load_warning:
  "(heavyLoadMsg \<in> set (recommendations (calculateExitOrder r)) \<longleftrightarrow> js_gt (computedMean r) 200)
   \<and> ((\<forall>j\<in>set r. wholePounds j) \<and> sum_list (map weightValue r) \<le> 2 ^ 53 \<and> length r < 2 ^ 32
       \<longrightarrow> (heavyLoadMsg \<in> set (recommendations (calculateExitOrder r))
            \<longleftrightarrow> r \<noteq> [] \<and> 200 < meanWeight r))
   \<and> heavyLoadMsg \<notin> set (recommendations (calculateExitOrder []))"
proof (intro conjI impI)
  show a: "heavyLoadMsg \<in> set (recommendations (calculateExitOrder q))
      \<longleftrightarrow> js_gt (computedMean q) 200" for q
    by (simp only: recommendations_eq heavy_iff)
  show "heavyLoadMsg \<in> set (recommendations (calculateExitOrder r))
      \<longleftrightarrow> r \<noteq> [] \<and> 200 < meanWeight r"
    if "(\<forall>j\<in>set r. wholePounds j) \<and> sum_list (map weightValue r) \<le> 2 ^ 53 \<and> length r < 2 ^ 32"
  proof -
    from that have "\<forall>j\<in>set r. wholePounds j" and "sum_list (map weightValue r) \<le> 2 ^ 53"
      and "length r < 2 ^ 32" by simp_all
    then show ?thesis unfolding a by (rule computedMean_whole)
  qed
  show "heavyLoadMsg \<notin> set (recommendations (calculateExitOrder []))"
    by (simp add: a computedMean_def js_of_int_def round64_def js_gt_def)
qed

text \<open>The four weights are doubles: 53-bit significands at the exponent of 128.\<close>

lemma double_in_128_256:
  assumes "128 \<le> x" and "x < 256" and "x * 35184372088832 = of_int n"
  shows "round64 x = Finite x"
proof -
  have x: "0 < x" using assms(1) by simp
  have "round64 x = Finite (of_int (round_half_even (x / pow2 (7 - 52))) * pow2 (7 - 52))"
    using x assms(1,2) by (intro round64_at) (simp_all add: pow2_def)
  moreover have "x / pow2 (7 - 52) = of_int n" using assms(3) by (simp add: pow2_def)
  ultimately show ?thesis
    using assms(3) by (simp add: round_half_even_of_int pow2_def)
qed

lemma fractional_weights_are_doubles:
  "map (\<lambda>j. round64 (weightValue j)) fractionalRoster = map weight fractionalRoster"
proof -
  have "round64 (363 / 2) = Finite (363 / 2)"
    by (rule double_in_128_256 [where n = 6385963534123008]) simp_all
  moreover have "round64 (7269091273552691 / 35184372088832)
      = Finite (7269091273552691 / 35184372088832)"
    by (rule double_in_128_256 [where n = 7269091273552691]) simp_all
  moreover have "round64 (3119094585674957 / 17592186044416)
      = Finite (3119094585674957 / 17592186044416)"
    by (rule double_in_128_256 [where n = 6238189171349914]) simp_all
  moreover have "round64 (8254253692039987 / 35184372088832)
      = Finite (8254253692039987 / 35184372088832)"
    by (rule double_in_128_256 [where n = 8254253692039987]) simp_all
  ultimately show ?thesis
    by (simp add: fractionalRoster_def weighing_def weightValue_def)
qed

text \<open>
  C9, as stated, fails on fractional weights: the doubles of 181.5, 206.6, 177.3 and
  234.6 have the arithmetic mean 200 exactly, their rounded sums reach
  800.0000000000001, and the warning is emitted.
\<close>

lemma fractional_total:
  "foldl (\<lambda>sum j. js_add sum (weight j)) (Finite 0) fractionalRoster
   = Finite (7036874417766401 / 8796093022208)"
proof -
  have 1: "round64 (0 + 363 / 2) = Finite (363 / 2)"
  proof -
    have "round64 (0 + 363 / 2)
        = Finite (of_int (round_half_even ((0 + 363 / 2) / pow2 (7 - 52))) * pow2 (7 - 52))"
      by (rule round64_at) (simp_all add: pow2_def)
    also have "\<dots> = Finite (363 / 2)" by code_simp
    finally show ?thesis .
  qed
  have 2: "round64 (363 / 2 + 7269091273552691 / 35184372088832)
      = Finite (3413763701918925 / 8796093022208)"
  proof -
    have "round64 (363 / 2 + 7269091273552691 / 35184372088832)
        = Finite (of_int (round_half_even
            ((363 / 2 + 7269091273552691 / 35184372088832) / pow2 (8 - 52))) * pow2 (8 - 52))"
      by (rule round64_at) (simp_all add: pow2_def)
    also have "\<dots> = Finite (3413763701918925 / 8796093022208)" by code_simp
    finally show ?thesis .
  qed
  have 3: "round64 (3413763701918925 / 8796093022208 + 3119094585674957 / 17592186044416)
      = Finite (1243327748689101 / 2199023255552)"
  proof -
    have "round64 (3413763701918925 / 8796093022208 + 3119094585674957 / 17592186044416)
        = Finite (of_int (round_half_even
            ((3413763701918925 / 8796093022208 + 3119094585674957 / 17592186044416)
              / pow2 (9 - 52))) * pow2 (9 - 52))"
      by (rule round64_at) (simp_all add: pow2_def)
    also have "\<dots> = Finite (1243327748689101 / 2199023255552)" by code_simp
    finally show ?thesis .
  qed
  have 4: "round64 (1243327748689101 / 2199023255552 + 8254253692039987 / 35184372088832)
      = Finite (7036874417766401 / 8796093022208)"
  proof -
    have "round64 (1243327748689101 / 2199023255552 + 8254253692039987 / 35184372088832)
        = Finite (of_int (round_half_even
            ((1243327748689101 / 2199023255552 + 8254253692039987 / 35184372088832)
              / pow2 (9 - 52))) * pow2 (9 - 52))"
      by (rule round64_at) (simp_all add: pow2_def)
    also have "\<dots> = Finite (7036874417766401 / 8796093022208)" by code_simp
    finally show ?thesis .
  qed
  show ?thesis
    by (simp only: fractionalRoster_def weighing_def foldl.simps Jumper.simps js_add.simps
        1 2 3 4)
qed

lemma fractional_mean:
  "computedMean fractionalRoster = Finite (7036874417766401 / 35184372088832)"
proof -
  have "round64 (7036874417766401 / 35184372088832)
      = Finite (of_int (round_half_even
          ((7036874417766401 / 35184372088832) / pow2 (7 - 52))) * pow2 (7 - 52))"
    by (rule round64_at) (simp_all add: pow2_def)
  also have "\<dots> = Finite (7036874417766401 / 35184372088832)" by code_simp
  finally have q: "round64 (7036874417766401 / 35184372088832)
      = Finite (7036874417766401 / 35184372088832)" .
  have "js_of_int 4 = Finite (of_int 4)" by (rule js_of_int_exact) simp_all
  then have n: "js_of_int (int (length fractionalRoster)) = Finite 4"
    by (simp add: fractionalRoster_def)
  show ?thesis by (simp add: computedMean_def fractional_total n q)
qed

theorem fractional_weights_counterexample:
  "meanWeight fractionalRoster = 200
   \<and> heavyLoadMsg \<in> set (recommendations (calculateExitOrder fractionalRoster))"
proof
  show "meanWeight fractionalRoster = 200"
    by (simp add: meanWeight_def weightValue_def fractionalRoster_def weighing_def)
  show "heavyLoadMsg \<in> set (recommendations (calculateExitOrder fractionalRoster))"
    by (simp add: recommendations_eq heavy_iff fractional_mean js_gt_def)
qed

theorem heavy_load_warning_witness:
  "wholePounds tandemLow \<and> wholePounds tandemHigh
   \<and> meanWeight [tandemLow, tandemHigh] = 200
   \<and> heavyLoadMsg \<notin> set (recommendations (calculateExitOrder [tandemLow, tandemHigh]))
   \<and> meanWeight [tandemHigh] = 220
   \<and> heavyLoadMsg \<in> set (recommendations (calculateExitOrder [tandemHigh]))"
proof -
  have w: "wholePounds tandemLow" "wholePounds tandemHigh"
    "weightValue tandemLow = 180" "weightValue tandemHigh = 220"
    by (simp_all add: wholePounds_def weightValue_def tandemLow_def tandemHigh_def)
  have m: "meanWeight [tandemLow, tandemHigh] = 200" "meanWeight [tandemHigh] = 220"
    using w by (simp_all add: meanWeight_def)
  note low = heavy_load_warning [of "[tandemLow, tandemHigh]", THEN conjunct2, THEN conjunct1]
  note high = heavy_load_warning [of "[tandemHigh]", THEN conjunct2, THEN conjunct1]
  from low w m have "heavyLoadMsg \<notin> set (recommendations (calculateExitOrder [tandemLow, tandemHigh]))"
    by simp
  moreover from high w m have "heavyLoadMsg \<in> set (recommendations (calculateExitOrder [tandemHigh]))"
    by simp
  ultimately show ?thesis using w m by simp
qed

subsection \<open>Capacity\<close>

lemma priority_ge_trans: "priority_ge a b \<Longrightarrow> priority_ge b c \<Longrightarrow> priority_ge a c"
  by (simp add: priority_ge_def)

lemma priorityCompare_neg: "priorityCompare a b < 0 \<Longrightarrow> priority_ge a b"
  by (simp add: priority_ge_def priorityCompare_def)

lemma priorityCompare_nonneg: "\<not> priorityCompare a b < 0 \<Longrightarrow> priority_ge b a"
  by (simp add: priority_ge_def priorityCompare_def)

lemma sorted_wrt_priority: "sorted_wrt priority_ge (sort_js priorityCompare pool)"
proof (rule sorted_wrt_sort_js [where le = priority_ge and cmp = priorityCompare])
  show "priority_ge a b \<Longrightarrow> priority_ge b c \<Longrightarrow> priority_ge a c" for a b c
    by (rule priority_ge_trans)
  show "priorityCompare a b < 0 \<Longrightarrow> priority_ge a b" for a b by (rule priorityCompare_neg)
  show "\<not> priorityCompare a b < 0 \<Longrightarrow> priority_ge b a" for a b
    by (rule priorityCompare_nonneg)
qed

lemma stable_priority:
  "filter (\<lambda>j. getJumperPriority j = p) (sort_js priorityCompare pool)
   = filter (\<lambda>j. getJumperPriority j = p) pool"
proof (rule filter_sort_js_class [where le = priority_ge and cmp = priorityCompare])
  show "priority_ge a b \<Longrightarrow> priority_ge b c \<Longrightarrow> priority_ge a c" for a b c
    by (rule priority_ge_trans)
  show "priorityCompare a b < 0 \<Longrightarrow> priority_ge a b" for a b by (rule priorityCompare_neg)
  show "\<not> priorityCompare a b < 0 \<Longrightarrow> priority_ge b a" for a b
    by (rule priorityCompare_nonneg)
  show "getJumperPriority a = p \<Longrightarrow> getJumperPriority b = p \<Longrightarrow> \<not> priorityCompare a b < 0"
    for a b by (simp add: priorityCompare_def)
  show "getJumperPriority a = p \<Longrightarrow> priorityCompare a b < 0 \<Longrightarrow> \<not> priority_ge b a" for a b
    by (simp add: priorityCompare_def priority_ge_def)
qed

lemma slice_prefix: "0 \<le> s \<Longrightarrow> slice_js xs 0 (Some s) = take (nat s) xs"
  by (simp add: slice_js_def slice_index_def Let_def min_def)

lemma slice_suffix: "0 \<le> s \<Longrightarrow> slice_js xs s None = drop (nat s) xs"
  by (simp add: slice_js_def slice_index_def Let_def min_def)

lemma selected_eq:
  "0 \<le> s \<Longrightarrow> selectedJumpers (optimizeCapacity s pool) = take (nat s) (sort_js priorityCompare pool)"
  by (simp add: optimizeCapacity_def Let_def slice_prefix)

lemma waiting_eq:
  "0 \<le> s \<Longrightarrow> waitingList (optimizeCapacity s pool) = drop (nat s) (sort_js priorityCompare pool)"
  by (simp add: optimizeCapacity_def Let_def slice_suffix)

lemma ranked_eq:
  "0 \<le> s \<Longrightarrow> selectedJumpers (optimizeCapacity s pool) @ waitingList (optimizeCapacity s pool)
     = sort_js priorityCompare pool"
  by (simp add: selected_eq waiting_eq)

lemma priority_table:
  "getJumperPriority j =
     (if jumpType j = ''tandem'' then 100 else if jumpType j = ''aff'' then 80
      else if jumpType j = ''coach_jump'' then 60 else if jumpType j = ''fun_jump'' then 40
      else 0)
     + (if requiresInstructor j = Some True then 20 else 0)
     + (if experienceLevel j = ''beginner'' then 15
        else if experienceLevel j = ''intermediate'' then 10
        else if experienceLevel j = ''advanced'' then 5 else 0)"
  by (simp add: getJumperPriority_def Let_def)

lemma pool_priorities: "map getJumperPriority candidatePool = [100, 100, 80, 40, 40]"
  by (simp add: candidatePool_def candidate_def getJumperPriority_def Let_def)

lemma pool_sorted: "sort_js priorityCompare candidatePool = candidatePool"
  by (simp add: candidatePool_def sort_js_def priorityCompare_def candidate_def
      getJumperPriority_def Let_def)

lemma pool_result:
  "optimizeCapacity 3 candidatePool =
     \<lparr>selectedJumpers = [candidate ''c1'' ''tandem'', candidate ''c2'' ''tandem'',
        candidate ''c3'' ''aff''],
      waitingList = [candidate ''c4'' ''fun_jump'', candidate ''c5'' ''fun_jump''],
      utilizationScore = Finite 100\<rparr>"
proof -
  have "round64 (of_int 1) = Finite (of_int 1)" and "round64 (of_int 100) = Finite (of_int 100)"
    and "js_of_int 3 = Finite (of_int 3)"
    by (simp_all only: js_of_int_def) (rule round64_of_int; simp)+
  then have "js_mul (js_div (js_of_int 3) (js_of_int 3)) (Finite 100) = Finite 100" by simp
  then show ?thesis
    by (simp add: optimizeCapacity_def Let_def pool_sorted slice_js_def slice_index_def)
      (simp add: candidatePool_def)
qed

text \<open>
  C8. For a seat count \<open>s \<ge> 0\<close>, \<open>optimizeCapacity\<close> ranks the pool by descending
  priority, candidates of equal priority in their input order (the ranking is the
  selected jumpers followed by the waiting list: a permutation of the pool, sorted by
  descending priority, that keeps the order inside every priority), and selects the first
  \<open>min s (length pool)\<close> of the ranking. The priority is the sum of the base of the jump
  type (tandem 100, aff 80, coach_jump 60, fun_jump 40, any other 0), 20 when
  \<open>requiresInstructor\<close> is true, and the bonus of the experience level (15, 10, 5, 0).
  For the pool with priorities 100, 100, 80, 40, 40 and 3 seats the two candidates of
  priority 100 and the one of priority 80 are selected, the other two wait, and the
  utilisation is 100.
\<close>

theorem capacity_selection:
  assumes "0 \<le> s"
  shows "mset (selectedJumpers (optimizeCapacity s pool) @ waitingList (optimizeCapacity s pool))
           = mset pool
    \<and> sorted_wrt (\<lambda>a b. getJumperPriority b \<le> getJumperPriority a)
        (selectedJumpers (optimizeCapacity s pool) @ waitingList (optimizeCapacity s pool))
    \<and> (\<forall>p. filter (\<lambda>j. getJumperPriority j = p)
              (selectedJumpers (optimizeCapacity s pool) @ waitingList (optimizeCapacity s pool))
            = filter (\<lambda>j. getJumperPriority j = p) pool)
    \<and> length (selectedJumpers (optimizeCapacity s pool)) = min (nat s) (length pool)
    \<and> getJumperPriority j =
        (if jumpType j = ''tandem'' then 100 else if jumpType j = ''aff'' then 80
         else if jumpType j = ''coach_jump'' then 60 else if jumpType j = ''fun_jump'' then 40
         else 0)
        + (if requiresInstructor j = Some True then 20 else 0)
        + (if experienceLevel j = ''beginner'' then 15
           else if experienceLevel j = ''intermediate'' then 10
           else if experienceLevel j = ''advanced'' then 5 else 0)
    \<and> map getJumperPriority candidatePool = [100, 100, 80, 40, 40]
    \<and> optimizeCapacity 3 candidatePool =
        \<lparr>selectedJumpers = [candidate ''c1'' ''tandem'', candidate ''c2'' ''tandem'',
           candidate ''c3'' ''aff''],
         waitingList = [candidate ''c4'' ''fun_jump'', candidate ''c5'' ''fun_jump''],
         utilizationScore = Finite 100\<rparr>"
proof -
  let ?ranked = "selectedJumpers (optimizeCapacity s pool) @ waitingList (optimizeCapacity s pool)"
  have r: "?ranked = sort_js priorityCompare pool" using assms by (rule ranked_eq)
  have 1: "mset ?ranked = mset pool" by (simp only: r mset_sort_js)
  have "sorted_wrt priority_ge ?ranked" by (simp only: r sorted_wrt_priority)
  then have 2: "sorted_wrt (\<lambda>a b. getJumperPriority b \<le> getJumperPriority a) ?ranked"
    by (simp add: priority_ge_def [abs_def])
  have 3: "\<forall>p. filter (\<lambda>j. getJumperPriority j = p) ?ranked
      = filter (\<lambda>j. getJumperPriority j = p) pool"
    by (simp only: r stable_priority) simp
  have "length (sort_js priorityCompare pool) = length pool"
    using mset_sort_js [of priorityCompare pool] by (metis size_mset)
  then have 4: "length (selectedJumpers (optimizeCapacity s pool)) = min (nat s) (length pool)"
    using assms by (simp add: selected_eq min.commute)
  from 1 2 3 4 priority_table [of j] pool_priorities pool_result show ?thesis
    by (intro conjI)
qed

text \<open>
  The instructor warning counts the distinct \<open>instructorId\<close> entries of the jumpers that
  require an instructor, the absent entry among them.
\<close>

lemma instructor_iff:
  "instructorCapacityMsg \<in> set (generateRecommendations gs r)
   \<longleftrightarrow> 2 * card (instructorId ` {j \<in> set r. requiresInstructor j = Some True})
        < length (filter (\<lambda>j. requiresInstructor j = Some True) r)"
proof -
  have "length (remdups (map instructorId (filter (\<lambda>j. requiresInstructor j = Some True) r)))
      = card (instructorId ` {j \<in> set r. requiresInstructor j = Some True})"
    by (simp add: length_remdups_card_conv)
  then show ?thesis
    by (simp add: generateRecommendations_def Let_def set_pushIf heavyLoadMsg_def
      splitTandemsMsg_def affCoverageMsg_def consolidateMsg_def instructorCapacityMsg_def
      mult.commute)
qed

text \<open>
  C2 at the roster of one tandem student without an instructor: one jumper requires an
  instructor, no instructor is assigned, and no warning is emitted.
\<close>

theorem unassigned_student_no_warning:
  "requiresInstructor tandemLow = Some True \<and> instructorId tandemLow = None
   \<and> instructorCapacityMsg \<notin> set (recommendations (calculateExitOrder [tandemLow]))"
  by (simp add: recommendations_eq instructor_iff) (simp add: tandemLow_def)

subsection \<open>Timing\<close>

text \<open>
  C1 at the empty roster: the transition term is \<open>(0 - 1) * 30\<close>, and the total time is
  1170 seconds, 30 less than the climb time.
\<close>

theorem empty_roster_totalTime: "totalTime (calculateExitOrder []) = 1170"
  by (simp add: calculateExitOrder_def Let_def sort_js_def createJumpGroups_def
      calculateTotalTime_def)

subsection \<open>No seats\<close>

text \<open>
  C3 at zero seats: nobody is selected, the whole pool waits, and the utilisation is the
  quotient \<open>0 / 0\<close>, which is \<open>NaN\<close>.
\<close>

theorem zero_seats_utilization:
  "selectedJumpers (optimizeCapacity 0 pool) = []
   \<and> mset (waitingList (optimizeCapacity 0 pool)) = mset pool
   \<and> utilizationScore (optimizeCapacity 0 pool) = NaN"
proof -
  have "js_of_int 0 = Finite 0" by (simp add: js_of_int_def round64_def)
  then show ?thesis
    by (simp add: optimizeCapacity_def Let_def slice_js_def slice_index_def mset_sort_js)
qed

subsection \<open>Zero fall rates\<close>

lemma insert_js_map:
  assumes "\<And>x y. cmp (f x) (f y) = cmp x y"
  shows "insert_js cmp (f x) (map f ys) = map f (insert_js cmp x ys)"
  by (induction ys) (simp_all add: assms)

lemma sort_js_map:
  assumes "\<And>x y. cmp (f x) (f y) = cmp x y"
  shows "sort_js cmp (map f xs) = map f (sort_js cmp xs)"
proof (induction xs rule: rev_induct)
  case Nil
  show ?case by (simp add: sort_js_def)
next
  case (snoc x xs)
  have "sort_js cmp (map f (xs @ [x])) = insert_js cmp (f x) (sort_js cmp (map f xs))"
    by (simp add: sort_js_snoc)
  also have "\<dots> = insert_js cmp (f x) (map f (sort_js cmp xs))" by (simp only: snoc)
  also have "\<dots> = map f (insert_js cmp x (sort_js cmp xs))"
    using assms by (rule insert_js_map)
  finally show ?case by (simp only: sort_js_snoc)
qed

lemma fallRateOrDefault_absentIfZero: "fallRateOrDefault (absentIfZero j) = fallRateOrDefault j"
  by (simp add: absentIfZero_def fallRateOrDefault_def getDefaultFallRate_def)

lemma exitCompare_absentIfZero: "exitCompare (absentIfZero a) (absentIfZero b) = exitCompare a b"
proof -
  have "jumpType (absentIfZero x) = jumpType x"
    and "Jumper.exitAltitude (absentIfZero x) = Jumper.exitAltitude x" for x
    by (simp_all add: absentIfZero_def)
  then show ?thesis by (simp only: exitCompare_def fallRateOrDefault_absentIfZero)
qed

text \<open>
  C10. For a jumper whose \<open>fallRate\<close> is present and 0, the comparison function breaks a
  tie of jump type and exit altitude with the default of the jumper's type and experience
  level (120, 110, 140 or 130, 125, and 130 for any other type) in the place of the 0:
  against a jumper \<open>b\<close> of the same type and altitude the result is that default minus the
  fall rate of \<open>b\<close> (the supplied one when it is not 0, the default of \<open>b\<close> when it is
  absent). The zero is treated as an absent fall rate: the comparison function gives the
  same results on either side, so that a sort driven by these results moves the jumpers
  the same way once every zero fall rate is replaced by an absent one.
\<close>

theorem zero_fallRate_is_absent:
  assumes "fallRate j = Some 0"
  shows "(jumpType b = jumpType j \<and> Jumper.exitAltitude b = Jumper.exitAltitude j
        \<and> fallRate b = Some v \<and> v \<noteq> 0
        \<longrightarrow> exitCompare j b = getDefaultFallRate j - v
          \<and> exitCompare b j = v - getDefaultFallRate j)
    \<and> (jumpType b = jumpType j \<and> Jumper.exitAltitude b = Jumper.exitAltitude j
        \<and> fallRate b = None
        \<longrightarrow> exitCompare j b = getDefaultFallRate j - getDefaultFallRate b
          \<and> exitCompare b j = getDefaultFallRate b - getDefaultFallRate j)
    \<and> getDefaultFallRate j =
        (if jumpType j = ''tandem'' then 120 else if jumpType j = ''aff'' then 110
         else if jumpType j = ''fun_jump'' then (if experienceLevel j = ''expert'' then 140 else 130)
         else if jumpType j = ''coach_jump'' then 125 else 130)
    \<and> fallRateOrDefault j = getDefaultFallRate j
    \<and> fallRateOrDefault j = fallRateOrDefault (j\<lparr>fallRate := None\<rparr>)
    \<and> exitCompare j c = exitCompare (j\<lparr>fallRate := None\<rparr>) c
    \<and> exitCompare c j = exitCompare c (j\<lparr>fallRate := None\<rparr>)
    \<and> exitOrder (calculateExitOrder (map absentIfZero r))
        = map absentIfZero (exitOrder (calculateExitOrder r))"
proof -
  have d: "getDefaultFallRate (j\<lparr>fallRate := None\<rparr>) = getDefaultFallRate j"
    by (simp add: getDefaultFallRate_def)
  have 1: "fallRateOrDefault j = getDefaultFallRate j"
    using assms by (simp add: fallRateOrDefault_def)
  have 2: "fallRateOrDefault j = fallRateOrDefault (j\<lparr>fallRate := None\<rparr>)"
    using assms d by (simp add: fallRateOrDefault_def)
  have t: "jumpType (j\<lparr>fallRate := None\<rparr>) = jumpType j"
    and a: "Jumper.exitAltitude (j\<lparr>fallRate := None\<rparr>) = Jumper.exitAltitude j"
    by simp_all
  have 3: "exitCompare j c = exitCompare (j\<lparr>fallRate := None\<rparr>) c"
    by (simp only: exitCompare_def t a 2 [symmetric])
  have 4: "exitCompare c j = exitCompare c (j\<lparr>fallRate := None\<rparr>)"
    by (simp only: exitCompare_def t a 2 [symmetric])
  have 5: "getDefaultFallRate j =
        (if jumpType j = ''tandem'' then 120 else if jumpType j = ''aff'' then 110
         else if jumpType j = ''fun_jump'' then (if experienceLevel j = ''expert'' then 140 else 130)
         else if jumpType j = ''coach_jump'' then 125 else 130)"
    by (simp add: getDefaultFallRate_def)
  have 6: "exitOrder (calculateExitOrder (map absentIfZero r))
        = map absentIfZero (exitOrder (calculateExitOrder r))"
    unfolding exitOrder_eq by (rule sort_js_map) (rule exitCompare_absentIfZero)
  have tie: "exitCompare x y = fallRateOrDefault x - fallRateOrDefault y"
    if "jumpType x = jumpType y" and "Jumper.exitAltitude x = Jumper.exitAltitude y" for x y
    using that by (auto simp: exitCompare_def)
  have 7: "jumpType b = jumpType j \<and> Jumper.exitAltitude b = Jumper.exitAltitude j
        \<and> fallRate b = Some v \<and> v \<noteq> 0
        \<longrightarrow> exitCompare j b = getDefaultFallRate j - v
          \<and> exitCompare b j = v - getDefaultFallRate j"
  proof
    assume h: "jumpType b = jumpType j \<and> Jumper.exitAltitude b = Jumper.exitAltitude j
        \<and> fallRate b = Some v \<and> v \<noteq> 0"
    then have "fallRateOrDefault b = v" by (simp add: fallRateOrDefault_def)
    with h 1 tie [of j b] tie [of b j]
    show "exitCompare j b = getDefaultFallRate j - v \<and> exitCompare b j = v - getDefaultFallRate j"
      by simp
  qed
  have 8: "jumpType b = jumpType j \<and> Jumper.exitAltitude b = Jumper.exitAltitude j
        \<and> fallRate b = None
        \<longrightarrow> exitCompare j b = getDefaultFallRate j - getDefaultFallRate b
          \<and> exitCompare b j = getDefaultFallRate b - getDefaultFallRate j"
  proof
    assume h: "jumpType b = jumpType j \<and> Jumper.exitAltitude b = Jumper.exitAltitude j
        \<and> fallRate b = None"
    then have "fallRateOrDefault b = getDefaultFallRate b" by (simp add: fallRateOrDefault_def)
    with h 1 tie [of j b] tie [of b j]
    show "exitCompare j b = getDefaultFallRate j - getDefaultFallRate b
        \<and> exitCompare b j = getDefaultFallRate b - getDefaultFallRate j"
      by simp
  qed
  from 7 8 5 1 2 3 4 6 show ?thesis by (intro conjI)
qed

text \<open>The theorem at an expert fun jumper with fall rate 0 and one with fall rate 135 at
  the same altitude: the default 140 decides, and the jumper at 135 exits first.\<close>

theorem zero_fallRate_is_absent_witness:
  "fallRate funZero = Some 0
   \<and> getDefaultFallRate funZero = 140
   \<and> exitCompare funZero fun135 = 5 \<and> exitCompare fun135 funZero = - 5
   \<and> exitOrder (calculateExitOrder [funZero, fun135]) = [fun135, funZero]"
proof -
  have z: "fallRate funZero = Some 0" by (simp add: funZero_def)
  have s: "jumpType fun135 = jumpType funZero"
    "Jumper.exitAltitude fun135 = Jumper.exitAltitude funZero"
    "fallRate fun135 = Some 135" "jumpType funZero = ''fun_jump''"
    "experienceLevel funZero = ''expert''"
    by (simp_all add: funZero_def fun135_def)
  note tie = zero_fallRate_is_absent [OF z, of fun135 135, THEN conjunct1]
  note table = zero_fallRate_is_absent [OF z, THEN conjunct2, THEN conjunct2, THEN conjunct1]
  from table s have d: "getDefaultFallRate funZero = 140" by simp
  from tie s d have c: "exitCompare funZero fun135 = 5" "exitCompare fun135 funZero = - 5"
    by simp_all
  have "sort_js exitCompare [funZero, fun135] = [fun135, funZero]"
    using c by (simp add: sort_js_def)
  with z d c show ?thesis by (simp add: exitOrder_eq)
qed

section \<open>The theorems at sample rosters\<close>

lemma sample_exitOrder:
  "exitOrder (calculateExitOrder [funZero, tandemLow, funZero]) = [tandemLow, funZero, funZero]"
  by (simp add: exitOrder_eq sort_js_def exitCompare_def tandemLow_def funZero_def)

lemma sample_keys:
  "groupKey tandemLow = ''tandem-10000''" "groupKey funZero = ''fun_jump-14000''"
  by (simp_all add: groupKey_def tandemLow_def funZero_def js_string_of_int_def digits.simps
      digit_char_def)

lemma sample_groups:
  "groups (calculateExitOrder [funZero, tandemLow, funZero])
   = [mkGroup [tandemLow] 10000 ''tandem-10000'', mkGroup [funZero, funZero] 14000 ''fun_jump-14000'']"
proof -
  have "sort_js exitCompare [funZero, tandemLow, funZero] = [tandemLow, funZero, funZero]"
    using sample_exitOrder by (simp only: exitOrder_eq)
  moreover have "Jumper.exitAltitude tandemLow = 10000" "Jumper.exitAltitude funZero = 14000"
    by (simp_all add: tandemLow_def funZero_def)
  ultimately show ?thesis
    by (simp add: groups_eq createJumpGroups_def sample_keys)
qed

theorem exitOrder_permutation_witness:
  "length (exitOrder (calculateExitOrder [tandemLow, tandemHigh])) = 2"
  using exitOrder_permutation [of "[tandemLow, tandemHigh]"] by simp

theorem groups_concat_witness:
  "concat (map jumpers (groups (calculateExitOrder [funZero, tandemLow, funZero])))
   = [tandemLow, funZero, funZero]"
  using groups_concat [of "[funZero, tandemLow, funZero]"] by (simp add: sample_exitOrder)

theorem groups_bounded_witness:
  "declaredJumpType (jumpType funZero) \<and> declaredJumpType (jumpType tandemLow)
   \<and> length (jumpers (groups (calculateExitOrder [funZero, tandemLow, funZero]) ! 1)) \<le> 8
   \<and> jumpers (groups (calculateExitOrder [funZero, tandemLow, funZero]) ! 1) = [funZero, funZero]"
proof -
  have d: "declaredJumpType (jumpType funZero)" "declaredJumpType (jumpType tandemLow)"
    by (simp_all add: declaredJumpType_def tandemLow_def funZero_def)
  from groups_bounded [of "[funZero, tandemLow, funZero]"] d show ?thesis
    by (simp add: sample_groups mkGroup_def)
qed

theorem capacity_selection_witness:
  "(0::int) \<le> 3 \<and> length (selectedJumpers (optimizeCapacity 3 candidatePool)) = 3"
proof -
  have "(0::int) \<le> 3" by simp
  from capacity_selection [OF this, of candidatePool] show ?thesis
    by (simp add: candidatePool_def)
qed

end
